theory Spec2Isabelle
  imports Complex_Main "HOL-Library.AList"
begin

section \<open>Data model\<close>

text \<open>
  Node identifiers are the strings that \<open>load_network_from_yaml\<close> produces with
  \<open>str(node)\<close>. Python floats are modelled by the reals: rounding is not part of the
  model. Every delay is the exact value of the expression that the code evaluates in
  double precision, and a comparison of two delays compares exact sums. Every Python
  exception that the modelled code can raise is a value of \<open>error\<close>.
\<close>

type_synonym node = string

datatype error = KeyError | ZeroDivisionError | ValueError | NodeNotFound | NetworkXNoPath
  | InvalidTopology | InvalidCapacity

text \<open>
  The attribute dictionary that \<open>load_network_from_yaml\<close> attaches to every edge has
  exactly the five keys below.
\<close>

record link =
  bandwidth :: real
  propagation_delay :: real
  processing_delay :: real
  queuing_delay :: real
  jitter :: real

text \<open>
  The third component of an expanded edge is one of three Python values: the attribute
  dictionary of an original edge, the dictionary \<open>{'capacity': c}\<close>, or a number
  (the literal \<open>0\<close> on linking edges).
\<close>

datatype payload = Attrs link | CapacityDict real | Number real

fun is_dict :: "payload \<Rightarrow> bool" where
  "is_dict (Attrs l) = True"
| "is_dict (CapacityDict c) = True"
| "is_dict (Number x) = False"

text \<open>\<open>edge_data.get(key, default)\<close> on either dictionary shape.\<close>

fun dict_get :: "payload \<Rightarrow> string \<Rightarrow> real \<Rightarrow> real" where
  "dict_get (Attrs l) k d =
     (if k = ''bandwidth'' then bandwidth l
      else if k = ''propagation_delay'' then propagation_delay l
      else if k = ''processing_delay'' then processing_delay l
      else if k = ''queuing_delay'' then queuing_delay l
      else if k = ''jitter'' then jitter l
      else d)"
| "dict_get (CapacityDict c) k d = (if k = ''capacity'' then c else d)"
| "dict_get (Number x) k d = d"

text \<open>Python's true division raises on a zero divisor.\<close>

definition py_div :: "real \<Rightarrow> real \<Rightarrow> error + real" where
  "py_div a b = (if b = 0 then Inl ZeroDivisionError else Inr (a / b))"

text \<open>\<open>caps.get(k, default)\<close> and \<open>caps[k]\<close> on the capacity dictionary.\<close>

definition caps_get :: "(node \<times> real) list \<Rightarrow> node \<Rightarrow> real \<Rightarrow> real" where
  "caps_get caps k d = (case map_of caps k of None \<Rightarrow> d | Some c \<Rightarrow> c)"

definition caps_index :: "(node \<times> real) list \<Rightarrow> node \<Rightarrow> error + real" where
  "caps_index caps k = (case map_of caps k of None \<Rightarrow> Inl KeyError | Some c \<Rightarrow> Inr c)"

text \<open>\<open>v.split('_')[0]\<close>: the part of \<open>v\<close> before its first underscore.\<close>

definition split_head :: "string \<Rightarrow> string" where
  "split_head v = takeWhile (\<lambda>c. c \<noteq> CHR ''_'') v"

section \<open>The weight function \<open>d_uv\<close>\<close>

text \<open>
  \<open>d_uv\<close> of the CPEG search script (and, with the same body, of \<open>LP_in_CPEG.py\<close>).
  The module-level globals \<open>flow_size\<close>, \<open>gamma\<close>, \<open>omega\<close> and
  \<open>compute_capacities\<close> that the body reads are the first four arguments.
\<close>

definition non_transmission_delay :: "payload \<Rightarrow> real" where
  "non_transmission_delay edge_data =
     dict_get edge_data ''propagation_delay'' 0 + dict_get edge_data ''processing_delay'' 0
     + dict_get edge_data ''queuing_delay'' 0 + dict_get edge_data ''jitter'' 0"

definition d_uv ::
  "real \<Rightarrow> real \<Rightarrow> real \<Rightarrow> (node \<times> real) list \<Rightarrow> node \<Rightarrow> node \<Rightarrow> string \<Rightarrow> payload \<Rightarrow> error + real"
where
  "d_uv flow_size gamma omega compute_capacities u v layer edge_data =
     (if \<not> is_dict edge_data then Inr 0
      else if layer = ''C-UCL'' then
        (case py_div flow_size (dict_get edge_data ''bandwidth'' 1) of
           Inl e \<Rightarrow> Inl e
         | Inr transmission_delay \<Rightarrow> Inr (transmission_delay + non_transmission_delay edge_data))
      else if layer = ''C-DCL'' then
        (case py_div (gamma * flow_size) (dict_get edge_data ''bandwidth'' 1) of
           Inl e \<Rightarrow> Inl e
         | Inr transmission_delay \<Rightarrow> Inr (transmission_delay + non_transmission_delay edge_data))
      else if layer = ''UCL-CL'' then
        py_div (omega * flow_size) (caps_get compute_capacities (split_head v) 1)
      else if layer = ''CL-DCL'' then Inr 0
      else Inr 0)"

section \<open>CPEG: the three-layer expansion (\<open>CPEG.py\<close>)\<close>

type_synonym xedge = "node \<times> node \<times> payload \<times> string"

text \<open>
  The loop that appends the \<open>UCL-CL\<close> edges reads \<open>compute_capacities[node]\<close>, which
  raises \<open>KeyError\<close> at the first compute node without a capacity.
\<close>

fun ucl_cl_edges :: "(node \<times> real) list \<Rightarrow> node list \<Rightarrow> error + xedge list" where
  "ucl_cl_edges compute_capacities [] = Inr []"
| "ucl_cl_edges compute_capacities (node # rest) =
     (case caps_index compute_capacities node of
        Inl e \<Rightarrow> Inl e
      | Inr c \<Rightarrow>
         (case ucl_cl_edges compute_capacities rest of
            Inl e \<Rightarrow> Inl e
          | Inr es \<Rightarrow> Inr ((node, node @ ''_2'', CapacityDict c, ''UCL-CL'') # es)))"

definition expand_network ::
  "node list \<Rightarrow> (node \<times> node \<times> link) list \<Rightarrow> node list \<Rightarrow> (node \<times> real) list \<Rightarrow> node \<Rightarrow> node
     \<Rightarrow> error + (node list \<times> xedge list)"
where
  "expand_network original_nodes original_edges compute_nodes compute_capacities Source_node Dest_node =
     (let V_C_UCL = original_nodes;
          V_C_CL = map (\<lambda>node. node @ ''_2'') compute_nodes;
          V_C_DCL = map (\<lambda>node. node @ ''_3'') (filter (\<lambda>node. node \<noteq> Source_node) original_nodes);
          c_ucl = map (\<lambda>(u, v, weight). (u, v, Attrs weight, ''C-UCL''))
                    (filter (\<lambda>(u, v, weight). v \<noteq> Dest_node) original_edges);
          cl_dcl = map (\<lambda>node. (node @ ''_2'', node @ ''_3'', Number 0, ''CL-DCL'')) compute_nodes;
          c_dcl = map (\<lambda>(u, v, weight). (u @ ''_3'', v @ ''_3'', Attrs weight, ''C-DCL''))
                    (filter (\<lambda>(u, v, weight). u \<noteq> Source_node \<and> v \<noteq> Source_node) original_edges)
      in case ucl_cl_edges compute_capacities compute_nodes of
           Inl e \<Rightarrow> Inl e
         | Inr ucl_cl \<Rightarrow> Inr (V_C_UCL @ V_C_CL @ V_C_DCL, c_ucl @ ucl_cl @ cl_dcl @ c_dcl))"

section \<open>Directed graphs and path search (the library the scripts call)\<close>

text \<open>
  The scripts keep their graphs in the \<open>DiGraph\<close> class of the networkx library, which
  is not part of the repository. The model keeps what the scripts rely on: the nodes in
  insertion order, and one attribute value per ordered pair of nodes, the last one written
  (adding an edge twice overwrites its attributes).
\<close>

record 'a digraph =
  gnodes :: "node list"
  gadj :: "((node \<times> node) \<times> 'a) list"

definition empty_graph :: "'a digraph" where
  "empty_graph = \<lparr>gnodes = [], gadj = []\<rparr>"

definition add_node :: "'a digraph \<Rightarrow> node \<Rightarrow> 'a digraph" where
  "add_node G n = (if n \<in> set (gnodes G) then G else G\<lparr>gnodes := gnodes G @ [n]\<rparr>)"

definition add_edge :: "'a digraph \<Rightarrow> node \<Rightarrow> node \<Rightarrow> 'a \<Rightarrow> 'a digraph" where
  "add_edge G u v a = (add_node (add_node G u) v)\<lparr>gadj := AList.update (u, v) a (gadj G)\<rparr>"

definition add_nodes_from :: "'a digraph \<Rightarrow> node list \<Rightarrow> 'a digraph" where
  "add_nodes_from G ns = foldl add_node G ns"

definition add_edges_from :: "'a digraph \<Rightarrow> (node \<times> node \<times> 'a) list \<Rightarrow> 'a digraph" where
  "add_edges_from G es = foldl (\<lambda>G (u, v, a). add_edge G u v a) G es"

text \<open>\<open>G[u][v]\<close>: the attributes of the edge, \<open>KeyError\<close> when there is none.\<close>

definition edge_attr :: "'a digraph \<Rightarrow> node \<Rightarrow> node \<Rightarrow> 'a option" where
  "edge_attr G u v = map_of (gadj G) (u, v)"

definition succs :: "'a digraph \<Rightarrow> node \<Rightarrow> node list" where
  "succs G u = map (\<lambda>((a, b), x). b) (filter (\<lambda>((a, b), x). a = u) (gadj G))"

text \<open>
  \<open>sum(f(G[p[i]][p[i+1]]) for i in range(len(p)-1))\<close>, where reading a missing edge or
  evaluating \<open>f\<close> may raise; the first element that raises ends the sum.
\<close>

fun path_sum :: "'a digraph \<Rightarrow> ('a \<Rightarrow> error + real) \<Rightarrow> node list \<Rightarrow> error + real" where
  "path_sum G f (u # v # rest) =
     (case edge_attr G u v of
        None \<Rightarrow> Inl KeyError
      | Some a \<Rightarrow>
         (case f a of
            Inl e \<Rightarrow> Inl e
          | Inr x \<Rightarrow> (case path_sum G f (v # rest) of Inl e \<Rightarrow> Inl e | Inr s \<Rightarrow> Inr (x + s))))"
| "path_sum G f p = Inr 0"

text \<open>The total weight of a node sequence under a weight that cannot raise.\<close>

fun path_cost :: "'a digraph \<Rightarrow> ('a \<Rightarrow> real) \<Rightarrow> node list \<Rightarrow> real" where
  "path_cost G w (u # v # rest) =
     (case edge_attr G u v of None \<Rightarrow> 0 | Some a \<Rightarrow> w a) + path_cost G w (v # rest)"
| "path_cost G w p = 0"

text \<open>
  All simple paths from \<open>u\<close> to \<open>t\<close> that avoid the nodes in \<open>vis\<close> and have at most
  \<open>n\<close> edges, in the order of the adjacency lists.
\<close>

fun simple_paths :: "nat \<Rightarrow> 'a digraph \<Rightarrow> node list \<Rightarrow> node \<Rightarrow> node \<Rightarrow> node list list" where
  "simple_paths 0 G vis u t = (if u = t then [[u]] else [])"
| "simple_paths (Suc n) G vis u t =
     (if u = t then [[u]]
      else concat (map (\<lambda>v. map ((#) u) (simple_paths n G (u # vis) v t))
                       (filter (\<lambda>v. v \<notin> set (u # vis)) (succs G u))))"

fun first_min :: "('b \<Rightarrow> real) \<Rightarrow> 'b \<Rightarrow> 'b list \<Rightarrow> 'b" where
  "first_min f b [] = b"
| "first_min f b (x # xs) = first_min f (if f x < f b then x else b) xs"

text \<open>
  \<open>nx.dijkstra_path(G, source, target, weight)\<close>, by its contract on non-negative
  weights: it raises \<open>NodeNotFound\<close> when the source is not in the graph,
  \<open>NetworkXNoPath\<close> when the target cannot be reached, and otherwise returns a path of
  minimum total weight. A minimum-weight path can be taken simple when no weight is
  negative, so the model searches the simple paths. Which of several minimum-weight
  paths the library returns is not fixed by its contract; the model takes the first one
  in the order of enumeration.
\<close>

definition dijkstra_path :: "'a digraph \<Rightarrow> node \<Rightarrow> node \<Rightarrow> ('a \<Rightarrow> real) \<Rightarrow> error + node list" where
  "dijkstra_path G source target w =
     (if source \<notin> set (gnodes G) then Inl NodeNotFound
      else case simple_paths (length (gnodes G)) G [] source target of
             [] \<Rightarrow> Inl NetworkXNoPath
           | p # ps \<Rightarrow> Inr (first_min (path_cost G w) p ps))"

text \<open>
  \<open>nx.shortest_path(G, source, target, weight)\<close> with both end points given: the same
  search, and \<open>NodeNotFound\<close> also when the target is not in the graph.
\<close>

definition shortest_path :: "'a digraph \<Rightarrow> node \<Rightarrow> node \<Rightarrow> ('a \<Rightarrow> real) \<Rightarrow> error + node list" where
  "shortest_path G source target w =
     (if target \<notin> set (gnodes G) then Inl NodeNotFound else dijkstra_path G source target w)"

text \<open>The graph that \<open>main\<close> of \<open>CCN.py\<close> and of \<open>MPCN.py\<close> builds.\<close>

definition original_graph :: "node list \<Rightarrow> (node \<times> node \<times> link) list \<Rightarrow> link digraph" where
  "original_graph nodes edges = add_edges_from (add_nodes_from empty_graph nodes) edges"

section \<open>Results\<close>

text \<open>\<open>total_delay\<close> is a float or \<open>float('inf')\<close>.\<close>

datatype delay = Fin real | PosInf

fun delay_le :: "delay \<Rightarrow> delay \<Rightarrow> bool" where
  "delay_le (Fin a) (Fin b) = (a \<le> b)"
| "delay_le d PosInf = True"
| "delay_le PosInf (Fin b) = False"

type_synonym path_result = "node option \<times> delay \<times> node list"

definition no_path_result :: path_result where
  "no_path_result = (None, PosInf, [])"

text \<open>Sequencing of computations that may raise.\<close>

fun err_bind :: "error + 'a \<Rightarrow> ('a \<Rightarrow> error + 'b) \<Rightarrow> error + 'b" where
  "err_bind (Inl e) f = Inl e"
| "err_bind (Inr x) f = f x"

section \<open>CCN: the closest compute node (\<open>CCN.py\<close>)\<close>

text \<open>
  The first loop of \<open>find_closest_compute_node\<close>. \<open>except nx.NetworkXNoPath: continue\<close>
  skips a compute node that is unreachable or cannot reach the destination; any other
  exception leaves the function.
\<close>

fun valid_compute_nodes ::
  "link digraph \<Rightarrow> node \<Rightarrow> node \<Rightarrow> node list \<Rightarrow> error + (node \<times> real \<times> node list \<times> node list) list"
where
  "valid_compute_nodes G source_node destination_node [] = Inr []"
| "valid_compute_nodes G source_node destination_node (compute_node # rest) =
     (case shortest_path G source_node compute_node propagation_delay of
        Inl e \<Rightarrow>
          (if e = NetworkXNoPath then valid_compute_nodes G source_node destination_node rest
           else Inl e)
      | Inr path_to_compute \<Rightarrow>
          (case shortest_path G compute_node destination_node propagation_delay of
             Inl e \<Rightarrow>
               (if e = NetworkXNoPath then valid_compute_nodes G source_node destination_node rest
                else Inl e)
           | Inr path_to_dest \<Rightarrow>
               err_bind (path_sum G (\<lambda>a. Inr (propagation_delay a)) path_to_compute)
                 (\<lambda>delay_to_compute.
               err_bind (valid_compute_nodes G source_node destination_node rest)
                 (\<lambda>more. Inr ((compute_node, delay_to_compute, path_to_compute, path_to_dest) # more)))))"

text \<open>The per-edge term of the sum \<open>delay_compute_to_destination\<close>.\<close>

definition return_term :: "real \<Rightarrow> real \<Rightarrow> link \<Rightarrow> error + real" where
  "return_term gamma flow_size a =
     err_bind (py_div (gamma * flow_size) (bandwidth a))
       (\<lambda>t. Inr (propagation_delay a + processing_delay a + queuing_delay a + t + jitter a))"

text \<open>The per-edge term of the sum \<open>delay_to_compute\<close> of \<open>MPCN.py\<close>.\<close>

definition forward_term :: "real \<Rightarrow> link \<Rightarrow> error + real" where
  "forward_term flow_size a =
     err_bind (py_div flow_size (bandwidth a))
       (\<lambda>t. Inr (propagation_delay a + processing_delay a + queuing_delay a + t + jitter a))"

text \<open>\<open>omega * flow_size / compute_capacities[node]\<close>.\<close>

definition compute_delay :: "real \<Rightarrow> real \<Rightarrow> (node \<times> real) list \<Rightarrow> node \<Rightarrow> error + real" where
  "compute_delay omega flow_size compute_capacities n =
     err_bind (caps_index compute_capacities n) (\<lambda>c. py_div (omega * flow_size) c)"

text \<open>
  The five sums along the selected forward path and their total
  \<open>delay_to_compute_node\<close>, in the order the function evaluates them.
\<close>

definition delay_to_compute_node :: "link digraph \<Rightarrow> real \<Rightarrow> node list \<Rightarrow> error + real" where
  "delay_to_compute_node G flow_size p =
     err_bind (path_sum G (\<lambda>a. py_div flow_size (bandwidth a)) p) (\<lambda>transmission_delay.
     err_bind (path_sum G (\<lambda>a. Inr (processing_delay a)) p) (\<lambda>processing_delay_sum.
     err_bind (path_sum G (\<lambda>a. Inr (queuing_delay a)) p) (\<lambda>queuing_delay_sum.
     err_bind (path_sum G (\<lambda>a. Inr (jitter a)) p) (\<lambda>jitter_sum.
     err_bind (path_sum G (\<lambda>a. Inr (propagation_delay a)) p) (\<lambda>propagation_delay_sum.
     Inr (propagation_delay_sum + transmission_delay + processing_delay_sum
          + queuing_delay_sum + jitter_sum))))))"

definition find_closest_compute_node ::
  "link digraph \<Rightarrow> node \<Rightarrow> node \<Rightarrow> node list \<Rightarrow> (node \<times> real) list \<Rightarrow> real \<Rightarrow> real \<Rightarrow> real
     \<Rightarrow> error + path_result"
where
  "find_closest_compute_node G source_node destination_node compute_nodes compute_capacities
       flow_size omega gamma =
     err_bind (valid_compute_nodes G source_node destination_node compute_nodes) (\<lambda>valid.
       case sort_key (\<lambda>x. fst (snd x)) valid of
         [] \<Rightarrow> Inr no_path_result
       | (closest_node, d, path_to_compute, path_compute_to_destination) # others \<Rightarrow>
           err_bind (delay_to_compute_node G flow_size path_to_compute)
             (\<lambda>forward_delay.
           err_bind (path_sum G (return_term gamma flow_size) path_compute_to_destination)
             (\<lambda>delay_compute_to_destination.
           err_bind (compute_delay omega flow_size compute_capacities closest_node)
             (\<lambda>cd.
           let total_delay = forward_delay + delay_compute_to_destination + cd;
               full_path = butlast path_to_compute @ path_compute_to_destination
           in Inr (Some closest_node, Fin total_delay, full_path)))))"

section \<open>MPCN: the compute node of maximum capacity (\<open>MPCN.py\<close>)\<close>

text \<open>
  \<open>max(items, key=...)\<close>: \<open>ValueError\<close> on an empty sequence, otherwise the first
  item of maximal key.
\<close>

fun py_max :: "('b \<Rightarrow> real) \<Rightarrow> 'b list \<Rightarrow> error + 'b" where
  "py_max key [] = Inl ValueError"
| "py_max key (x # xs) = Inr (foldl (\<lambda>best y. if key best < key y then y else best) x xs)"

text \<open>
  The two searches of \<open>MPCN.py\<close> pass a weight function that divides by the bandwidth
  of the edge it is called on. Which edges the library calls it on is not fixed by the
  library's contract; the model raises \<open>ZeroDivisionError\<close> as soon as some edge of the
  graph has bandwidth zero, and is exact on every graph without such an edge.
\<close>

definition forward_weight :: "real \<Rightarrow> link \<Rightarrow> real" where
  "forward_weight flow_size a =
     propagation_delay a + processing_delay a + queuing_delay a + flow_size / bandwidth a + jitter a"

definition return_weight :: "real \<Rightarrow> real \<Rightarrow> link \<Rightarrow> real" where
  "return_weight gamma flow_size a =
     propagation_delay a + processing_delay a + queuing_delay a
     + gamma * flow_size / bandwidth a + jitter a"

definition shortest_path_dividing ::
  "link digraph \<Rightarrow> node \<Rightarrow> node \<Rightarrow> (link \<Rightarrow> real) \<Rightarrow> error + node list"
where
  "shortest_path_dividing G source target w =
     (if source \<notin> set (gnodes G) \<or> target \<notin> set (gnodes G) then Inl NodeNotFound
      else if list_ex (\<lambda>(k, a). bandwidth a = 0) (gadj G) then Inl ZeroDivisionError
      else shortest_path G source target w)"

text \<open>The body of the \<open>try\<close> block.\<close>

definition mpcn_try ::
  "link digraph \<Rightarrow> node \<Rightarrow> node \<Rightarrow> (node \<times> real) list \<Rightarrow> real \<Rightarrow> real \<Rightarrow> real \<Rightarrow> node
     \<Rightarrow> error + path_result"
where
  "mpcn_try G source_node destination_node compute_capacities flow_size omega gamma max_capacity_node =
     err_bind (shortest_path_dividing G source_node max_capacity_node (forward_weight flow_size))
       (\<lambda>path_to_compute.
     err_bind (shortest_path_dividing G max_capacity_node destination_node
                 (return_weight gamma flow_size))
       (\<lambda>path_to_dest.
     err_bind (path_sum G (forward_term flow_size) path_to_compute)
       (\<lambda>delay_to_compute.
     err_bind (path_sum G (return_term gamma flow_size) path_to_dest)
       (\<lambda>delay_to_dest.
     err_bind (compute_delay omega flow_size compute_capacities max_capacity_node)
       (\<lambda>cd.
     let total_delay = delay_to_compute + delay_to_dest + cd;
         full_path = butlast path_to_compute @ path_to_dest
     in Inr (Some max_capacity_node, Fin total_delay, full_path))))))"

definition find_max_capacity_compute_node ::
  "link digraph \<Rightarrow> node \<Rightarrow> node \<Rightarrow> node list \<Rightarrow> (node \<times> real) list \<Rightarrow> real \<Rightarrow> real \<Rightarrow> real
     \<Rightarrow> error + path_result"
where
  "find_max_capacity_compute_node G source_node destination_node compute_nodes compute_capacities
       flow_size omega gamma =
     err_bind (py_max snd compute_capacities) (\<lambda>item.
       let max_capacity_node = fst item;
           r = mpcn_try G source_node destination_node compute_capacities flow_size omega gamma
                 max_capacity_node
       in if r = Inl NetworkXNoPath then Inr no_path_result else r)"

section \<open>CPEG: the search script\<close>

text \<open>
  The loop \<open>for u, v, edge_data, layer in E: G.add_edge(u, v, weight=d_uv(...), layer=layer)\<close>.
\<close>

fun build_graph ::
  "real \<Rightarrow> real \<Rightarrow> real \<Rightarrow> (node \<times> real) list \<Rightarrow> xedge list \<Rightarrow> (real \<times> string) digraph
     \<Rightarrow> error + (real \<times> string) digraph"
where
  "build_graph flow_size gamma omega compute_capacities [] G = Inr G"
| "build_graph flow_size gamma omega compute_capacities ((u, v, edge_data, layer) # E) G =
     err_bind (d_uv flow_size gamma omega compute_capacities u v layer edge_data)
       (\<lambda>weight. build_graph flow_size gamma omega compute_capacities E
                    (add_edge G u v (weight, layer)))"

text \<open>
  The script from the expansion to the two values it prints: the path found (in the node
  names of the expanded graph) and \<open>END_TO_END_DELAY\<close>. The script catches no exception.
\<close>

definition cpeg_algorithm ::
  "node list \<Rightarrow> (node \<times> node \<times> link) list \<Rightarrow> node list \<Rightarrow> (node \<times> real) list \<Rightarrow> node \<Rightarrow> node
     \<Rightarrow> real \<Rightarrow> real \<Rightarrow> real \<Rightarrow> error + (node list \<times> real)"
where
  "cpeg_algorithm original_nodes original_edges compute_nodes compute_capacities source_node
       destination_node flow_size gamma omega =
     err_bind (expand_network original_nodes original_edges compute_nodes compute_capacities
                 source_node destination_node) (\<lambda>(V, E).
     err_bind (build_graph flow_size gamma omega compute_capacities E empty_graph) (\<lambda>G.
     let dest_node_dcl = destination_node @ ''_3'' in
     err_bind (dijkstra_path G source_node dest_node_dcl fst) (\<lambda>found.
     err_bind (path_sum G (\<lambda>a. Inr (fst a)) found) (\<lambda>path_weight.
     Inr (found, path_weight)))))"

section \<open>Walks\<close>

text \<open>A node sequence whose consecutive pairs are edges of the graph.\<close>

fun is_walk :: "'a digraph \<Rightarrow> node list \<Rightarrow> bool" where
  "is_walk G (u # v # rest) = (edge_attr G u v \<noteq> None \<and> is_walk G (v # rest))"
| "is_walk G p = True"

section \<open>The greedy strategies over any search routine\<close>

text \<open>
  Which of several shortest paths \<open>nx.shortest_path\<close> returns is not fixed by the
  library's contract, and the path that CCN and MPCN report depends on it. For the
  comparison with CPEG the two strategies are therefore stated once more with the
  search as a parameter \<open>search\<close> in the place of \<open>nx.shortest_path\<close>; nothing else
  differs from \<open>find_closest_compute_node\<close> and \<open>find_max_capacity_compute_node\<close>
  above, which are the instances at the model's own search.
\<close>

type_synonym search = "link digraph \<Rightarrow> node \<Rightarrow> node \<Rightarrow> (link \<Rightarrow> real) \<Rightarrow> error + node list"

fun valid_compute_nodes_by ::
  "search \<Rightarrow> link digraph \<Rightarrow> node \<Rightarrow> node \<Rightarrow> node list
     \<Rightarrow> error + (node \<times> real \<times> node list \<times> node list) list"
where
  "valid_compute_nodes_by search G source_node destination_node [] = Inr []"
| "valid_compute_nodes_by search G source_node destination_node (compute_node # rest) =
     (case search G source_node compute_node propagation_delay of
        Inl e \<Rightarrow>
          (if e = NetworkXNoPath
           then valid_compute_nodes_by search G source_node destination_node rest
           else Inl e)
      | Inr path_to_compute \<Rightarrow>
          (case search G compute_node destination_node propagation_delay of
             Inl e \<Rightarrow>
               (if e = NetworkXNoPath
                then valid_compute_nodes_by search G source_node destination_node rest
                else Inl e)
           | Inr path_to_dest \<Rightarrow>
               err_bind (path_sum G (\<lambda>a. Inr (propagation_delay a)) path_to_compute)
                 (\<lambda>delay_to_compute.
               err_bind (valid_compute_nodes_by search G source_node destination_node rest)
                 (\<lambda>more. Inr ((compute_node, delay_to_compute, path_to_compute, path_to_dest) # more)))))"

definition find_closest_compute_node_by ::
  "search \<Rightarrow> link digraph \<Rightarrow> node \<Rightarrow> node \<Rightarrow> node list \<Rightarrow> (node \<times> real) list \<Rightarrow> real \<Rightarrow> real \<Rightarrow> real
     \<Rightarrow> error + path_result"
where
  "find_closest_compute_node_by search G source_node destination_node compute_nodes
       compute_capacities flow_size omega gamma =
     err_bind (valid_compute_nodes_by search G source_node destination_node compute_nodes)
       (\<lambda>valid.
       case sort_key (\<lambda>x. fst (snd x)) valid of
         [] \<Rightarrow> Inr no_path_result
       | (closest_node, d, path_to_compute, path_compute_to_destination) # others \<Rightarrow>
           err_bind (delay_to_compute_node G flow_size path_to_compute)
             (\<lambda>forward_delay.
           err_bind (path_sum G (return_term gamma flow_size) path_compute_to_destination)
             (\<lambda>delay_compute_to_destination.
           err_bind (compute_delay omega flow_size compute_capacities closest_node)
             (\<lambda>cd.
           let total_delay = forward_delay + delay_compute_to_destination + cd;
               full_path = butlast path_to_compute @ path_compute_to_destination
           in Inr (Some closest_node, Fin total_delay, full_path)))))"

definition mpcn_try_by ::
  "search \<Rightarrow> link digraph \<Rightarrow> node \<Rightarrow> node \<Rightarrow> (node \<times> real) list \<Rightarrow> real \<Rightarrow> real \<Rightarrow> real \<Rightarrow> node
     \<Rightarrow> error + path_result"
where
  "mpcn_try_by search G source_node destination_node compute_capacities flow_size omega gamma
       max_capacity_node =
     err_bind (search G source_node max_capacity_node (forward_weight flow_size))
       (\<lambda>path_to_compute.
     err_bind (search G max_capacity_node destination_node (return_weight gamma flow_size))
       (\<lambda>path_to_dest.
     err_bind (path_sum G (forward_term flow_size) path_to_compute)
       (\<lambda>delay_to_compute.
     err_bind (path_sum G (return_term gamma flow_size) path_to_dest)
       (\<lambda>delay_to_dest.
     err_bind (compute_delay omega flow_size compute_capacities max_capacity_node)
       (\<lambda>cd.
     let total_delay = delay_to_compute + delay_to_dest + cd;
         full_path = butlast path_to_compute @ path_to_dest
     in Inr (Some max_capacity_node, Fin total_delay, full_path))))))"

definition find_max_capacity_compute_node_by ::
  "search \<Rightarrow> link digraph \<Rightarrow> node \<Rightarrow> node \<Rightarrow> node list \<Rightarrow> (node \<times> real) list \<Rightarrow> real \<Rightarrow> real \<Rightarrow> real
     \<Rightarrow> error + path_result"
where
  "find_max_capacity_compute_node_by search G source_node destination_node compute_nodes
       compute_capacities flow_size omega gamma =
     err_bind (py_max snd compute_capacities) (\<lambda>item.
       let max_capacity_node = fst item;
           r = mpcn_try_by search G source_node destination_node compute_capacities flow_size
                 omega gamma max_capacity_node
       in if r = Inl NetworkXNoPath then Inr no_path_result else r)"

text \<open>
  The part of the library's contract that the comparison uses: a path that the search
  returns is a walk of the graph from the source to the target. Which of the shortest
  paths it is, and when the search raises, is left open.
\<close>

definition sound_search :: "search \<Rightarrow> bool" where
  "sound_search search =
     (\<forall>G s t w p. search G s t w = Inr p \<longrightarrow> p \<noteq> [] \<and> hd p = s \<and> last p = t \<and> is_walk G p)"

section \<open>Well-formed inputs\<close>

text \<open>
  The weight that \<open>d_uv\<close> returns for an expanded edge, when it returns one, and the
  edge as the build loop passes it to \<open>add_edge\<close>.
\<close>

definition edge_weight :: "real \<Rightarrow> real \<Rightarrow> real \<Rightarrow> (node \<times> real) list \<Rightarrow> xedge \<Rightarrow> real" where
  "edge_weight flow_size gamma omega compute_capacities e =
     (case e of (u, v, edge_data, layer) \<Rightarrow>
        (case d_uv flow_size gamma omega compute_capacities u v layer edge_data of
           Inl err \<Rightarrow> 0 | Inr w \<Rightarrow> w))"

definition weighted :: "real \<Rightarrow> real \<Rightarrow> real \<Rightarrow> (node \<times> real) list \<Rightarrow> xedge \<Rightarrow> node \<times> node \<times> real \<times> string" where
  "weighted flow_size gamma omega compute_capacities e =
     (case e of (u, v, edge_data, layer) \<Rightarrow>
        (u, v, edge_weight flow_size gamma omega compute_capacities e, layer))"

text \<open>
  The invariants of the data model: positive bandwidth, non-negative delay terms, edge
  end points and compute nodes among the nodes, a positive capacity for every compute
  node and for no other node; the source and the destination are not compute nodes, the
  flow size is positive, \<open>gamma \<ge> 1\<close> and \<open>omega \<ge> 0\<close>.
\<close>

definition valid_link :: "link \<Rightarrow> bool" where
  "valid_link l =
     (0 < bandwidth l \<and> 0 \<le> propagation_delay l \<and> 0 \<le> processing_delay l
      \<and> 0 \<le> queuing_delay l \<and> 0 \<le> jitter l)"

definition valid_network ::
  "node list \<Rightarrow> (node \<times> node \<times> link) list \<Rightarrow> node list \<Rightarrow> (node \<times> real) list \<Rightarrow> bool" where
  "valid_network nodes edges compute_nodes compute_capacities =
     (list_all (\<lambda>(u, v, l). u \<in> set nodes \<and> v \<in> set nodes \<and> valid_link l) edges
      \<and> list_all (\<lambda>n. n \<in> set nodes \<and> n \<in> fst ` set compute_capacities) compute_nodes
      \<and> list_all (\<lambda>(n, c). n \<in> set compute_nodes \<and> 0 < c) compute_capacities)"

definition valid_flow :: "node list \<Rightarrow> node \<Rightarrow> node \<Rightarrow> real \<Rightarrow> real \<Rightarrow> real \<Rightarrow> bool" where
  "valid_flow compute_nodes source_node destination_node flow_size gamma omega =
     (source_node \<notin> set compute_nodes \<and> destination_node \<notin> set compute_nodes
      \<and> 0 < flow_size \<and> 1 \<le> gamma \<and> 0 \<le> omega)"

text \<open>
  Node names without an underscore. The expansion tells the layers apart by the suffixes
  \<open>_2\<close> and \<open>_3\<close>, and \<open>d_uv\<close> recovers a compute node's name as the part before
  the first underscore.
\<close>

definition plain_names :: "node list \<Rightarrow> bool" where
  "plain_names ns = list_all (\<lambda>n. CHR ''_'' \<notin> set n) ns"

text \<open>Every end point of an edge is a node of the graph, as \<open>add_edge\<close> ensures.\<close>

definition wf_graph :: "'a digraph \<Rightarrow> bool" where
  "wf_graph G = (\<forall>((u, v), a) \<in> set (gadj G). u \<in> set (gnodes G) \<and> v \<in> set (gnodes G))"

text \<open>An edge list as an association list from node pairs to attributes.\<close>

definition keyed :: "(node \<times> node \<times> 'a) list \<Rightarrow> ((node \<times> node) \<times> 'a) list" where
  "keyed es = map (\<lambda>(u, v, a). ((u, v), a)) es"

text \<open>
  The graph that the build loop of the CPEG script returns when \<open>d_uv\<close> raises on no
  edge: every expanded edge is added with its weight.
\<close>

definition built_graph ::
  "real \<Rightarrow> real \<Rightarrow> real \<Rightarrow> (node \<times> real) list \<Rightarrow> xedge list \<Rightarrow> (real \<times> string) digraph" where
  "built_graph fs g om caps E = add_edges_from empty_graph (map (weighted fs g om caps) E)"

section \<open>CNE: the replica expansion (\<open>CNE.py\<close>)\<close>

text \<open>\<open>str(i)\<close> for a non-negative integer: its decimal digits.\<close>

definition digit_char :: "nat \<Rightarrow> char" where
  "digit_char n = (''0123456789'' ! n)"

function string_of_nat :: "nat \<Rightarrow> string" where
  "string_of_nat n = (if n < 10 then [digit_char n] else string_of_nat (n div 10) @ [digit_char (n mod 10)])"
  by pat_completeness auto
termination
  by (relation "measure id") auto

declare string_of_nat.simps [simp del]

text \<open>The loop \<open>for i, compute_node in enumerate(compute_nodes, 1)\<close> of \<open>CNE.py\<close>.\<close>

fun compute_edges :: "(node \<times> real) list \<Rightarrow> (nat \<times> node) list \<Rightarrow> error + xedge list" where
  "compute_edges compute_capacities [] = Inr []"
| "compute_edges compute_capacities ((i, compute_node) # rest) =
     err_bind (caps_index compute_capacities compute_node) (\<lambda>c.
     err_bind (compute_edges compute_capacities rest) (\<lambda>es.
       Inr ((compute_node, compute_node @ ''_'' @ string_of_nat i, CapacityDict c, ''compute'') # es)))"

text \<open>
  \<open>expand_network\<close> of \<open>CNE.py\<close>: the original edges, one copy of the network without
  the source per compute node (copy \<open>i\<close> on the names \<open>node_i\<close>), one \<open>compute\<close> edge
  from the \<open>i\<close>-th compute node into copy \<open>i\<close>, and the \<open>aggregate\<close> edges from the
  destination of every copy to the super destination.
\<close>

definition expand_network_CNE ::
  "node list \<Rightarrow> (node \<times> node \<times> link) list \<Rightarrow> node list \<Rightarrow> (node \<times> real) list \<Rightarrow> node \<Rightarrow> node
     \<Rightarrow> error + (node list \<times> xedge list \<times> node)"
where
  "expand_network_CNE original_nodes original_edges compute_nodes compute_capacities Source_node Dest_node =
     (let num_copies = length compute_nodes;
          original = map (\<lambda>(u, v, weight). (u, v, Attrs weight, ''original'')) original_edges;
          copy_nodes = concat (map (\<lambda>i. map (\<lambda>node. node @ ''_'' @ string_of_nat i)
                                 (filter (\<lambda>node. node \<noteq> Source_node) original_nodes))
                               [1..<num_copies + 1]);
          copied = concat (map (\<lambda>i. map (\<lambda>(u, v, weight).
                                   (u @ ''_'' @ string_of_nat i, v @ ''_'' @ string_of_nat i,
                                    Attrs weight, ''copied''))
                                 (filter (\<lambda>(u, v, weight). u \<noteq> Source_node \<and> v \<noteq> Source_node)
                                    original_edges))
                           [1..<num_copies + 1]);
          super_dest = Dest_node @ ''_Super_Dest'';
          aggregate = map (\<lambda>i. (Dest_node @ ''_'' @ string_of_nat i, super_dest, Number 0, ''aggregate''))
                        [1..<num_copies + 1]
      in err_bind (compute_edges compute_capacities (zip [1..<num_copies + 1] compute_nodes))
           (\<lambda>compute. Inr (original_nodes @ copy_nodes @ [super_dest],
                            original @ copied @ compute @ aggregate, super_dest)))"

section \<open>CNE: the search\<close>

text \<open>
  Modelled from the spec: the weight function and the search of the CNE strategy. The
  script that runs them (the benchmark drivers call it \<open>CNE_algorithm.py\<close>) is not among
  the sources; only the expansion above is. The spec gives the delay model (section 4.1:
  \<open>linkDelay\<close> in the two directions, \<open>computeDelay\<close>, divisions guarded), and for the
  replica expansion (section 4.5) zero-weight aggregate edges, one compute-capacity edge
  per compute node, a search from the source to the super destination and the
  failure result of section 4.4, \<open>+infinity\<close> when there is no path. Original edges lead
  towards a compute node and carry the forward delay, the edges of a copy lead from it
  to the destination and carry the return delay. Only the total delay is modelled.
\<close>

datatype direction = Forward | Return

text \<open>Modelled from the spec: \<open>linkDelay(edge, flowSize, direction)\<close> of section 4.1.\<close>

definition linkDelay :: "link \<Rightarrow> real \<Rightarrow> real \<Rightarrow> direction \<Rightarrow> error + real" where
  "linkDelay edge flowSize gamma dir =
     (if bandwidth edge = 0 then Inl InvalidTopology
      else Inr (propagation_delay edge + processing_delay edge + queuing_delay edge + jitter edge
                + (case dir of Forward \<Rightarrow> flowSize / bandwidth edge
                   | Return \<Rightarrow> gamma * flowSize / bandwidth edge)))"

text \<open>
  Modelled from the spec: \<open>computeDelay(node, flowSize, omega, capacities)\<close> of section
  4.1, which fails with \<open>InvalidCapacity\<close> on a missing or non-positive capacity.
\<close>

definition computeDelay :: "node \<Rightarrow> real \<Rightarrow> real \<Rightarrow> (node \<times> real) list \<Rightarrow> error + real" where
  "computeDelay n flowSize omega capacities =
     (case map_of capacities n of
        None \<Rightarrow> Inl InvalidCapacity
      | Some c \<Rightarrow> if c \<le> 0 then Inl InvalidCapacity else Inr (omega * flowSize / c))"

text \<open>
  Modelled from the spec: the weight of an edge of the replica expansion, by the data the
  expansion attaches to it.
\<close>

fun cne_weight :: "real \<Rightarrow> real \<Rightarrow> real \<Rightarrow> (node \<times> real) list \<Rightarrow> xedge \<Rightarrow> error + real" where
  "cne_weight flowSize gamma omega capacities (u, v, Attrs edge, layer) =
     (if layer = ''original'' then linkDelay edge flowSize gamma Forward
      else linkDelay edge flowSize gamma Return)"
| "cne_weight flowSize gamma omega capacities (u, v, CapacityDict c, layer) =
     computeDelay u flowSize omega capacities"
| "cne_weight flowSize gamma omega capacities (u, v, Number x, layer) = Inr 0"

text \<open>Modelled from the spec: the weighted graph of the replica expansion.\<close>

fun cne_build ::
  "real \<Rightarrow> real \<Rightarrow> real \<Rightarrow> (node \<times> real) list \<Rightarrow> xedge list \<Rightarrow> (real \<times> string) digraph
     \<Rightarrow> error + (real \<times> string) digraph"
where
  "cne_build flowSize gamma omega capacities [] G = Inr G"
| "cne_build flowSize gamma omega capacities ((u, v, edge_data, layer) # E) G =
     err_bind (cne_weight flowSize gamma omega capacities (u, v, edge_data, layer))
       (\<lambda>weight. cne_build flowSize gamma omega capacities E (add_edge G u v (weight, layer)))"

text \<open>
  Modelled from the spec: the search from the source to the super destination and the
  total delay it yields.
\<close>

definition cne_total_delay ::
  "node list \<Rightarrow> (node \<times> node \<times> link) list \<Rightarrow> node list \<Rightarrow> (node \<times> real) list \<Rightarrow> node \<Rightarrow> node
     \<Rightarrow> real \<Rightarrow> real \<Rightarrow> real \<Rightarrow> error + delay"
where
  "cne_total_delay original_nodes original_edges compute_nodes compute_capacities source_node
       destination_node flowSize gamma omega =
     err_bind (expand_network_CNE original_nodes original_edges compute_nodes compute_capacities
                 source_node destination_node) (\<lambda>(V, E, super_dest).
     err_bind (cne_build flowSize gamma omega compute_capacities E empty_graph) (\<lambda>G.
       case dijkstra_path G source_node super_dest fst of
         Inl e \<Rightarrow> Inr PosInf
       | Inr found \<Rightarrow> Inr (Fin (path_cost G fst found))))"

text \<open>
  Modelled from the spec: the edge as \<open>cne_build\<close> passes it to \<open>add_edge\<close> when its
  weight does not fail, and the graph that \<open>cne_build\<close> returns when no weight fails.
\<close>

definition cne_weighted ::
  "real \<Rightarrow> real \<Rightarrow> real \<Rightarrow> (node \<times> real) list \<Rightarrow> xedge \<Rightarrow> node \<times> node \<times> real \<times> string" where
  "cne_weighted fs g om caps e =
     (case e of (u, v, edge_data, layer) \<Rightarrow>
        (u, v, (case cne_weight fs g om caps e of Inl err \<Rightarrow> 0 | Inr w \<Rightarrow> w), layer))"

definition cne_graph ::
  "real \<Rightarrow> real \<Rightarrow> real \<Rightarrow> (node \<times> real) list \<Rightarrow> xedge list \<Rightarrow> (real \<times> string) digraph" where
  "cne_graph fs g om caps E = add_edges_from empty_graph (map (cne_weighted fs g om caps) E)"

text \<open>
  The edge list that \<open>expand_network\<close> of \<open>CNE.py\<close> returns when every compute node has
  a capacity: the original edges, the copies, the compute edges and the aggregate edges,
  in this order.
\<close>

definition cne_edges ::
  "(node \<times> node \<times> link) list \<Rightarrow> node list \<Rightarrow> (node \<times> real) list \<Rightarrow> node \<Rightarrow> node \<Rightarrow> xedge list" where
  "cne_edges edges cns caps s d =
     map (\<lambda>(u, v, weight). (u, v, Attrs weight, ''original'')) edges
     @ concat (map (\<lambda>i. map (\<lambda>(u, v, weight).
                              (u @ ''_'' @ string_of_nat i, v @ ''_'' @ string_of_nat i,
                               Attrs weight, ''copied''))
                            (filter (\<lambda>(u, v, weight). u \<noteq> s \<and> v \<noteq> s) edges))
                      [1..<length cns + 1])
     @ map (\<lambda>(i, n). (n, n @ ''_'' @ string_of_nat i, CapacityDict (the (map_of caps n)),
                     ''compute'')) (zip [1..<length cns + 1] cns)
     @ map (\<lambda>i. (d @ ''_'' @ string_of_nat i, d @ ''_Super_Dest'', Number 0, ''aggregate''))
           [1..<length cns + 1]"

section \<open>Properties of the weight function\<close>

text \<open>
  C10. The weight function is total and defaults silently: on an edge whose attached data
  is not a dictionary, and on an edge whose layer tag is none of \<open>C-UCL\<close>,
  \<open>C-DCL\<close>, \<open>UCL-CL\<close>, \<open>CL-DCL\<close> (the tags \<open>original\<close>, \<open>copied\<close>,
  \<open>compute\<close>, \<open>aggregate\<close> of the replica expansion among them), \<open>d_uv\<close> returns 0 and
  raises nothing.
\<close>

theorem d_uv_silent_default:
  "(\<not> is_dict edge_data \<or> layer \<notin> {''C-UCL'', ''C-DCL'', ''UCL-CL'', ''CL-DCL''})
   \<longrightarrow> d_uv flow_size gamma omega compute_capacities u v layer edge_data = Inr 0"
  by (simp add: d_uv_def)

theorem d_uv_silent_default_witness:
  "d_uv 100 2 10 [(''B'', 10000)] ''D_1'' ''D_Super_Dest'' ''aggregate'' (Number 0) = Inr 0
   \<and> d_uv 100 2 10 [(''B'', 10000)] ''A'' ''B''  ''original''
        (Attrs \<lparr>bandwidth = 1000, propagation_delay = 1, processing_delay = 1 / 10,
                queuing_delay = 0, jitter = 0\<rparr>) = Inr 0
   \<and> d_uv 100 2 10 [(''B'', 10000)] ''B'' ''B_1''  ''compute'' (CapacityDict 10000) = Inr 0
   \<and> d_uv 100 2 10 [(''B'', 10000)] ''B_2'' ''B_3'' ''CL-DCL'' (Number 0) = Inr 0"
  using d_uv_silent_default [of "Number 0" "''aggregate''" 100 2 10 "[(''B'', 10000)]" "''D_1''" "''D_Super_Dest''"]
    d_uv_silent_default [of "Attrs \<lparr>bandwidth = 1000, propagation_delay = 1, processing_delay = 1 / 10,
                queuing_delay = 0, jitter = 0\<rparr>" "''original''" 100 2 10 "[(''B'', 10000)]" "''A''" "''B''"]
    d_uv_silent_default [of "CapacityDict 10000" "''compute''" 100 2 10 "[(''B'', 10000)]" "''B''" "''B_1''"]
    d_uv_silent_default [of "Number 0" "''CL-DCL''" 100 2 10 "[(''B'', 10000)]" "''B_2''" "''B_3''"]
  by simp

section \<open>Sums along walks\<close>

lemma path_sum_total:
  assumes "\<And>u v a. edge_attr G u v = Some a \<Longrightarrow> f a = Inr (w a)"
  shows "path_sum G f p = (if is_walk G p then Inr (path_cost G w p) else Inl KeyError)"
  using assms
proof (induction G f p rule: path_sum.induct)
  case (1 G f u v rest)
  show ?case
  proof (cases "edge_attr G u v")
    case None
    then show ?thesis by simp
  next
    case (Some a)
    then have "f a = Inr (w a)" using "1.prems" by blast
    then show ?thesis using Some "1.IH" "1.prems" by (auto split: sum.splits)
  qed
qed simp_all

lemma path_cost_add:
  "path_cost G (\<lambda>a. f a + g a) p = path_cost G f p + path_cost G g p"
  by (induction G f p rule: path_cost.induct) (auto split: option.splits)

lemma edge_attr_in_gadj: "edge_attr G u v = Some a \<Longrightarrow> ((u, v), a) \<in> set (gadj G)"
  by (simp add: edge_attr_def map_of_SomeD)

lemma delay_to_compute_node_total:
  assumes "\<forall>(k, a) \<in> set (gadj G). bandwidth a \<noteq> 0"
  shows "delay_to_compute_node G flow_size p =
           (if is_walk G p then Inr (path_cost G (forward_weight flow_size) p) else Inl KeyError)"
proof -
  have nz: "\<And>u v a. edge_attr G u v = Some a
              \<Longrightarrow> py_div flow_size (bandwidth a) = Inr (flow_size / bandwidth a)"
    using assms by (auto simp: py_div_def dest!: edge_attr_in_gadj)
  have eq: "forward_weight flow_size =
              (\<lambda>a. propagation_delay a + (flow_size / bandwidth a) + processing_delay a
                    + queuing_delay a + jitter a)"
    by (auto simp: forward_weight_def fun_eq_iff)
  show ?thesis
    unfolding delay_to_compute_node_def eq
    by (simp add: path_sum_total[where w="\<lambda>a. flow_size / bandwidth a", OF nz]
        path_sum_total[where f="\<lambda>a. Inr (g a)" and w=g for g] path_cost_add)
qed

text \<open>
  C3. Link delay formulas. For an edge of positive bandwidth, a positive flow size and
  \<open>gamma \<ge> 1\<close>: the weight \<open>d_uv\<close> gives an upstream (\<open>C-UCL\<close>) edge, the weight
  and the summand of the forward search and sum of MPCN, and the forward delay that CCN
  accumulates along its path, all equal propagation + processing + queuing + jitter +
  flow size / bandwidth; the weight of a downstream (\<open>C-DCL\<close>) edge and the return
  weight and summand of MPCN and CCN equal the same four terms + gamma * flow size /
  bandwidth. The same holds for the fourth strategy, CNE, whose weight function is
  modelled from the spec: \<open>linkDelay\<close> in the forward and in the return direction, and
  the weight of an \<open>original\<close> edge and of a \<open>copied\<close> edge of the replica expansion,
  the two tags under which \<open>expand_network\<close> of \<open>CNE.py\<close> emits the links of the network.
\<close>

theorem link_delay_formulas:
  assumes "0 < bandwidth l" and "0 < flow_size" and "1 \<le> gamma"
    and "\<forall>(k, a) \<in> set (gadj G). 0 < bandwidth a"
  shows
   "d_uv flow_size gamma omega caps u v ''C-UCL'' (Attrs l) =
      Inr (propagation_delay l + processing_delay l + queuing_delay l + jitter l
           + flow_size / bandwidth l)
    \<and> d_uv flow_size gamma omega caps u v ''C-DCL'' (Attrs l) =
      Inr (propagation_delay l + processing_delay l + queuing_delay l + jitter l
           + gamma * flow_size / bandwidth l)
    \<and> forward_weight flow_size l =
        propagation_delay l + processing_delay l + queuing_delay l + jitter l
        + flow_size / bandwidth l
    \<and> return_weight gamma flow_size l =
        propagation_delay l + processing_delay l + queuing_delay l + jitter l
        + gamma * flow_size / bandwidth l
    \<and> forward_term flow_size l =
        Inr (propagation_delay l + processing_delay l + queuing_delay l + jitter l
             + flow_size / bandwidth l)
    \<and> return_term gamma flow_size l =
        Inr (propagation_delay l + processing_delay l + queuing_delay l + jitter l
             + gamma * flow_size / bandwidth l)
    \<and> (is_walk G p \<longrightarrow>
         delay_to_compute_node G flow_size p =
           Inr (path_cost G (\<lambda>a. propagation_delay a + processing_delay a + queuing_delay a
                                  + jitter a + flow_size / bandwidth a) p))
    \<and> linkDelay l flow_size gamma Forward =
        Inr (propagation_delay l + processing_delay l + queuing_delay l + jitter l
             + flow_size / bandwidth l)
    \<and> linkDelay l flow_size gamma Return =
        Inr (propagation_delay l + processing_delay l + queuing_delay l + jitter l
             + gamma * flow_size / bandwidth l)
    \<and> cne_weight flow_size gamma omega caps (u, v, Attrs l, ''original'') =
        Inr (propagation_delay l + processing_delay l + queuing_delay l + jitter l
             + flow_size / bandwidth l)
    \<and> cne_weight flow_size gamma omega caps (u, v, Attrs l, ''copied'') =
        Inr (propagation_delay l + processing_delay l + queuing_delay l + jitter l
             + gamma * flow_size / bandwidth l)"
proof -
  have nz: "\<forall>(k, a) \<in> set (gadj G). bandwidth a \<noteq> 0"
    using assms(4) by fastforce
  have "forward_weight flow_size =
          (\<lambda>a. propagation_delay a + processing_delay a + queuing_delay a
                + jitter a + flow_size / bandwidth a)"
    by (simp add: forward_weight_def fun_eq_iff)
  then show ?thesis
    using assms(1) delay_to_compute_node_total [OF nz, of flow_size p]
    by (simp add: d_uv_def py_div_def non_transmission_delay_def forward_weight_def
        return_weight_def forward_term_def return_term_def linkDelay_def)
qed

theorem link_delay_formulas_witness:
  "d_uv 100 2 10 [] ''A'' ''B'' ''C-UCL''
      (Attrs \<lparr>bandwidth = 1000, propagation_delay = 1, processing_delay = 1 / 10,
              queuing_delay = 0, jitter = 0\<rparr>) = Inr (6 / 5)
   \<and> d_uv 100 2 10 [] ''A_3'' ''B_3'' ''C-DCL''
      (Attrs \<lparr>bandwidth = 1000, propagation_delay = 1, processing_delay = 1 / 10,
              queuing_delay = 0, jitter = 0\<rparr>) = Inr (13 / 10)
   \<and> delay_to_compute_node
        \<lparr>gnodes = [''A'', ''B''],
         gadj = [((''A'', ''B''), \<lparr>bandwidth = 1000, propagation_delay = 1,
                   processing_delay = 1 / 10, queuing_delay = 0, jitter = 0\<rparr>)]\<rparr>
        100 [''A'', ''B''] = Inr (6 / 5)
   \<and> linkDelay \<lparr>bandwidth = 1000, propagation_delay = 1, processing_delay = 1 / 10,
              queuing_delay = 0, jitter = 0\<rparr> 100 2 Forward = Inr (6 / 5)
   \<and> linkDelay \<lparr>bandwidth = 1000, propagation_delay = 1, processing_delay = 1 / 10,
              queuing_delay = 0, jitter = 0\<rparr> 100 2 Return = Inr (13 / 10)
   \<and> cne_weight 100 2 10 [] (''A'', ''B'',
        Attrs \<lparr>bandwidth = 1000, propagation_delay = 1, processing_delay = 1 / 10,
              queuing_delay = 0, jitter = 0\<rparr>, ''original'') = Inr (6 / 5)
   \<and> cne_weight 100 2 10 [] (''A_1'', ''B_1'',
        Attrs \<lparr>bandwidth = 1000, propagation_delay = 1, processing_delay = 1 / 10,
              queuing_delay = 0, jitter = 0\<rparr>, ''copied'') = Inr (13 / 10)"
  using link_delay_formulas [of "\<lparr>bandwidth = 1000, propagation_delay = 1,
        processing_delay = 1 / 10, queuing_delay = 0, jitter = 0\<rparr>" 100 2
        "\<lparr>gnodes = [''A'', ''B''],
         gadj = [((''A'', ''B''), \<lparr>bandwidth = 1000, propagation_delay = 1,
                   processing_delay = 1 / 10, queuing_delay = 0, jitter = 0\<rparr>)]\<rparr>"
        10 "[]" _ _ "[''A'', ''B'']"]
  by (simp add: edge_attr_def)

section \<open>The compute delay\<close>

lemma split_head_suffix:
  "CHR ''_'' \<notin> set n \<Longrightarrow> split_head (n @ CHR ''_'' # s) = n"
  unfolding split_head_def by (subst takeWhile_append2) auto

text \<open>
  C5 (as amended). The compute delay of CCN and MPCN is
  \<open>omega * flow_size / compute_capacities[node]\<close> with no guard of its own: a node
  without an entry raises \<open>KeyError\<close>, a capacity of zero raises
  \<open>ZeroDivisionError\<close>, and every other capacity, a negative one included, gives
  exactly \<open>omega * flow_size / capacity\<close> (which is 1 when the capacity equals
  \<open>flow_size * omega\<close>). The weight \<open>d_uv\<close> gives a compute-enter edge is the same
  value when the node name has no underscore and the node has a non-zero capacity.
\<close>

theorem compute_delay_cases:
  "(map_of caps n = None \<longrightarrow> compute_delay omega flow_size caps n = Inl KeyError)
   \<and> (map_of caps n = Some 0 \<longrightarrow> compute_delay omega flow_size caps n = Inl ZeroDivisionError)
   \<and> (map_of caps n = Some c \<and> c \<noteq> 0 \<longrightarrow>
        compute_delay omega flow_size caps n = Inr (omega * flow_size / c))
   \<and> (map_of caps n = Some (flow_size * omega) \<and> flow_size * omega \<noteq> 0 \<longrightarrow>
        compute_delay omega flow_size caps n = Inr 1)
   \<and> (map_of caps n = Some c \<and> c \<noteq> 0 \<and> CHR ''_'' \<notin> set n \<and> is_dict edge_data \<longrightarrow>
        d_uv flow_size gamma omega caps n (n @ ''_2'') ''UCL-CL'' edge_data
          = Inr (omega * flow_size / c))"
  by (simp add: compute_delay_def caps_index_def py_div_def d_uv_def caps_get_def
      split_head_suffix mult.commute)

theorem compute_delay_cases_witness:
  "compute_delay 10 100 [(''B'', 10000)] ''C'' = Inl KeyError
   \<and> compute_delay 10 100 [(''B'', 0)] ''B'' = Inl ZeroDivisionError
   \<and> compute_delay 10 100 [(''B'', 10000)] ''B'' = Inr (1 / 10)
   \<and> compute_delay 10 100 [(''B'', 1000)] ''B'' = Inr 1
   \<and> d_uv 100 2 10 [(''B'', 10000)] ''B'' ''B_2'' ''UCL-CL'' (CapacityDict 10000) = Inr (1 / 10)"
  using compute_delay_cases [of "[(''B'', 10000)]" "''C''" 10 100 1 "CapacityDict 1" 2]
    compute_delay_cases [of "[(''B'', 0)]" "''B''" 10 100 1 "CapacityDict 1" 2]
    compute_delay_cases [of "[(''B'', 10000)]" "''B''" 10 100 10000 "CapacityDict 10000" 2]
    compute_delay_cases [of "[(''B'', 1000)]" "''B''" 10 100 1000 "CapacityDict 1000" 2]
  by simp

text \<open>
  C5 as stated fails: a capacity that is negative raises nothing, the delay returned is
  negative.
\<close>

theorem compute_delay_no_error_counterexample:
  "compute_delay 10 100 [(''B'', - 1000)] ''B'' = Inr (- 1)"
  by (simp add: compute_delay_def caps_index_def py_div_def)

section \<open>Building the expanded graph\<close>

lemma ucl_cl_edges_ok:
  "\<forall>n \<in> set cns. map_of caps n \<noteq> None \<Longrightarrow>
   ucl_cl_edges caps cns =
     Inr (map (\<lambda>n. (n, n @ ''_2'', CapacityDict (the (map_of caps n)), ''UCL-CL'')) cns)"
  by (induction cns) (auto simp: caps_index_def)

lemma gadj_add_edge [simp]: "gadj (add_edge G u v a) = AList.update (u, v) a (gadj G)"
  by (simp add: add_edge_def)

lemma gnodes_add_node [simp]: "set (gnodes (add_node G n)) = insert n (set (gnodes G))"
  by (auto simp: add_node_def)

lemma gadj_add_node [simp]: "gadj (add_node G n) = gadj G"
  by (simp add: add_node_def)

lemma gnodes_add_edge [simp]: "set (gnodes (add_edge G u v a)) = insert u (insert v (set (gnodes G)))"
  by (auto simp: add_edge_def)

lemma set_update_subset: "set (AList.update k v al) \<subseteq> insert (k, v) (set al)"
  by (induction al) auto

lemma add_edges_from_Cons [simp]:
  "add_edges_from G ((u, v, a) # es) = add_edges_from (add_edge G u v a) es"
  by (simp add: add_edges_from_def)

lemma add_edges_from_Nil [simp]: "add_edges_from G [] = G"
  by (simp add: add_edges_from_def)

lemma build_graph_ok:
  "\<forall>(u, v, ed, layer) \<in> set E. \<exists>w. d_uv fs g om caps u v layer ed = Inr w \<Longrightarrow>
   build_graph fs g om caps E G = Inr (add_edges_from G (map (weighted fs g om caps) E))"
proof (induction E arbitrary: G)
  case Nil
  then show ?case by simp
next
  case (Cons e E)
  obtain u v ed layer where e: "e = (u, v, ed, layer)" by (cases e) auto
  from Cons.prems e obtain w where w: "d_uv fs g om caps u v layer ed = Inr w" by auto
  have we: "weighted fs g om caps e = (u, v, w, layer)"
    using w e by (simp add: weighted_def edge_weight_def)
  have "build_graph fs g om caps E (add_edge G u v (w, layer))
          = Inr (add_edges_from (add_edge G u v (w, layer)) (map (weighted fs g om caps) E))"
    using Cons.IH Cons.prems by simp
  then show ?case
    using w we by (simp add: e)
qed

lemma gadj_add_edges_from_subset:
  "set (gadj (add_edges_from G es)) \<subseteq> set (gadj G) \<union> (\<lambda>(u, v, a). ((u, v), a)) ` set es"
proof (induction es arbitrary: G)
  case Nil
  then show ?case by simp
next
  case (Cons e es)
  obtain u v a where e: "e = (u, v, a)" by (cases e) auto
  have "set (gadj (add_edges_from (add_edge G u v a) es))
          \<subseteq> set (gadj (add_edge G u v a)) \<union> (\<lambda>(u, v, a). ((u, v), a)) ` set es"
    by (rule Cons.IH)
  moreover have "set (gadj (add_edge G u v a)) \<subseteq> insert ((u, v), a) (set (gadj G))"
    by (simp add: set_update_subset)
  ultimately show ?case unfolding e by auto
qed

lemma map_of_gadj_add_edges_from:
  "map_of (gadj (add_edges_from G es))
     = map_of (gadj G) ++ map_of (rev (map (\<lambda>(u, v, a). ((u, v), a)) es))"
proof (induction es arbitrary: G)
  case Nil
  then show ?case by simp
next
  case (Cons e es)
  obtain u v a where e: "e = (u, v, a)" by (cases e) auto
  show ?case unfolding e
    by (simp add: Cons.IH AList.update_conv')
      (auto simp: map_add_def fun_eq_iff split: option.splits)
qed


lemma caps_get_pos:
  "\<forall>(n, c) \<in> set caps. 0 < c \<Longrightarrow> 0 < caps_get caps k 1"
  by (auto simp: caps_get_def split: option.splits dest!: map_of_SomeD)

lemma expand_network_ok:
  assumes "\<forall>n \<in> set cns. map_of caps n \<noteq> None"
  shows "expand_network nodes edges cns caps s d =
     Inr (nodes @ map (\<lambda>node. node @ ''_2'') cns
            @ map (\<lambda>node. node @ ''_3'') (filter (\<lambda>node. node \<noteq> s) nodes),
          map (\<lambda>(u, v, weight). (u, v, Attrs weight, ''C-UCL''))
              (filter (\<lambda>(u, v, weight). v \<noteq> d) edges)
          @ map (\<lambda>n. (n, n @ ''_2'', CapacityDict (the (map_of caps n)), ''UCL-CL'')) cns
          @ map (\<lambda>node. (node @ ''_2'', node @ ''_3'', Number 0, ''CL-DCL'')) cns
          @ map (\<lambda>(u, v, weight). (u @ ''_3'', v @ ''_3'', Attrs weight, ''C-DCL''))
              (filter (\<lambda>(u, v, weight). u \<noteq> s \<and> v \<noteq> s) edges))"
  by (simp add: expand_network_def ucl_cl_edges_ok [OF assms])

lemma valid_network_caps:
  "valid_network nodes edges cns caps \<Longrightarrow> n \<in> set cns \<Longrightarrow> map_of caps n \<noteq> None"
  by (auto simp: valid_network_def list_all_iff map_of_eq_None_iff)

lemma d_uv_nonneg:
  assumes net: "valid_network nodes edges cns caps"
    and flow: "valid_flow cns s d fs g om"
    and ex: "expand_network nodes edges cns caps s d = Inr (V, E)"
    and e: "(u, v, ed, layer) \<in> set E"
  shows "\<exists>w\<ge>0. d_uv fs g om caps u v layer ed = Inr w"
proof -
  have caps: "\<forall>n \<in> set cns. map_of caps n \<noteq> None"
    using net valid_network_caps by blast
  have links: "\<And>a b l. (a, b, l) \<in> set edges \<Longrightarrow> valid_link l"
    using net by (auto simp: valid_network_def list_all_iff)
  have pos: "0 < caps_get caps k 1" for k
    using net by (intro caps_get_pos) (auto simp: valid_network_def list_all_iff)
  have fl: "0 < fs" "1 \<le> g" "0 \<le> om"
    using flow by (auto simp: valid_flow_def)
  define A where "A = map (\<lambda>(u, v, weight). (u, v, Attrs weight, ''C-UCL''))
              (filter (\<lambda>(u, v, weight). v \<noteq> d) edges)"
  define B where "B = map (\<lambda>n. (n, n @ ''_2'', CapacityDict (the (map_of caps n)), ''UCL-CL'')) cns"
  define C where "C = map (\<lambda>node. (node @ ''_2'', node @ ''_3'', Number 0, ''CL-DCL'')) cns"
  define D where "D = map (\<lambda>(u, v, weight). (u @ ''_3'', v @ ''_3'', Attrs weight, ''C-DCL''))
              (filter (\<lambda>(u, v, weight). u \<noteq> s \<and> v \<noteq> s) edges)"
  have "E = A @ B @ C @ D"
    using ex unfolding expand_network_ok [OF caps] A_def B_def C_def D_def by simp
  with e have mem: "(u, v, ed, layer) \<in> set A \<or> (u, v, ed, layer) \<in> set B
      \<or> (u, v, ed, layer) \<in> set C \<or> (u, v, ed, layer) \<in> set D"
    by simp
  have a: "\<exists>l. (u, v, l) \<in> set edges \<and> ed = Attrs l \<and> layer = ''C-UCL''"
    if "(u, v, ed, layer) \<in> set A"
    using that unfolding A_def by auto
  have b: "\<exists>n c. v = n @ ''_2'' \<and> ed = CapacityDict c \<and> layer = ''UCL-CL''"
    if "(u, v, ed, layer) \<in> set B"
    using that unfolding B_def by auto
  have c: "ed = Number 0 \<and> layer = ''CL-DCL''"
    if "(u, v, ed, layer) \<in> set C"
    using that unfolding C_def by auto
  have d: "\<exists>a b l. (a, b, l) \<in> set edges \<and> ed = Attrs l \<and> layer = ''C-DCL''"
    if "(u, v, ed, layer) \<in> set D"
    using that unfolding D_def by auto
  from mem a b c d consider
      (ucl) l where "(u, v, l) \<in> set edges" "ed = Attrs l" "layer = ''C-UCL''"
    | (enter) n c where "v = n @ ''_2''" "ed = CapacityDict c" "layer = ''UCL-CL''"
    | (link) "ed = Number 0" "layer = ''CL-DCL''"
    | (dcl) a b l where "(a, b, l) \<in> set edges" "ed = Attrs l" "layer = ''C-DCL''"
    by blast
  then show ?thesis
  proof cases
    case ucl
    then have "valid_link l" using links by blast
    then show ?thesis using ucl fl
      by (simp add: d_uv_def py_div_def non_transmission_delay_def valid_link_def)
  next
    case enter
    have "0 \<le> om * fs / caps_get caps (split_head v) 1"
      using fl pos [of "split_head v"] by simp
    then show ?thesis using enter pos [of "split_head v"]
      by (simp add: d_uv_def py_div_def)
  next
    case link
    then show ?thesis by (simp add: d_uv_def)
  next
    case dcl
    then have "valid_link l" using links by blast
    then show ?thesis using dcl fl
      by (simp add: d_uv_def py_div_def non_transmission_delay_def valid_link_def)
  qed
qed

text \<open>
  C9 (as amended). For a valid network and flow request the expansion and the build loop
  succeed, and every edge weight of the expanded graph (upstream, downstream,
  compute-enter and linking edges) is non-negative. The build loop itself checks nothing.
\<close>

theorem expanded_weights_nonneg:
  assumes "valid_network nodes edges cns caps" and "valid_flow cns s d fs g om"
  shows "\<exists>V E G. expand_network nodes edges cns caps s d = Inr (V, E)
           \<and> build_graph fs g om caps E empty_graph = Inr G
           \<and> list_all (\<lambda>(k, w, layer). 0 \<le> w) (gadj G)"
proof -
  have caps: "\<forall>n \<in> set cns. map_of caps n \<noteq> None"
    using assms(1) valid_network_caps by blast
  obtain V E where ex: "expand_network nodes edges cns caps s d = Inr (V, E)"
    using expand_network_ok [OF caps] by blast
  have ok: "\<forall>(u, v, ed, layer) \<in> set E. \<exists>w\<ge>0. d_uv fs g om caps u v layer ed = Inr w"
    using d_uv_nonneg [OF assms ex] by blast
  then have "\<forall>(u, v, ed, layer) \<in> set E. \<exists>w. d_uv fs g om caps u v layer ed = Inr w"
    by blast
  then have b: "build_graph fs g om caps E empty_graph
                  = Inr (add_edges_from empty_graph (map (weighted fs g om caps) E))"
    by (rule build_graph_ok)
  have "0 \<le> w" if "(k, w, layer) \<in> set (gadj (add_edges_from empty_graph (map (weighted fs g om caps) E)))"
    for k w layer
  proof -
    from that gadj_add_edges_from_subset [of empty_graph "map (weighted fs g om caps) E"]
    obtain e where e: "e \<in> set E" and w: "w = edge_weight fs g om caps e"
      by (auto simp: empty_graph_def weighted_def split: prod.splits)
    obtain u v ed l' where "e = (u, v, ed, l')" by (cases e) auto
    with ok e w show ?thesis by (auto simp: edge_weight_def)
  qed
  then show ?thesis using ex b by (auto simp: list_all_iff)
qed


theorem expanded_weights_nonneg_witness:
  "\<exists>V E G. expand_network [''A'', ''B'', ''D'']
        [(''A'', ''B'', \<lparr>bandwidth = 1000, propagation_delay = 1, processing_delay = 1 / 10,
                          queuing_delay = 0, jitter = 0\<rparr>),
         (''B'', ''D'', \<lparr>bandwidth = 1000, propagation_delay = 1, processing_delay = 1 / 10,
                          queuing_delay = 0, jitter = 0\<rparr>)]
        [''B''] [(''B'', 10000)] ''A'' ''D'' = Inr (V, E)
     \<and> build_graph 100 2 10 [(''B'', 10000)] E empty_graph = Inr G
     \<and> list_all (\<lambda>(k, w, layer). 0 \<le> w) (gadj G)"
  by (rule expanded_weights_nonneg)
     (simp_all add: valid_network_def valid_flow_def valid_link_def)

text \<open>
  C9 as stated fails in its last part: no assertion guards the build. An edge with a
  negative propagation delay is added with its negative weight and nothing is raised.
\<close>

theorem build_without_check_counterexample:
  "build_graph 100 2 10 []
     [(''A'', ''B'', Attrs \<lparr>bandwidth = 1000, propagation_delay = - 5, processing_delay = 0,
                            queuing_delay = 0, jitter = 0\<rparr>, ''C-UCL'')] empty_graph
   = Inr \<lparr>gnodes = [''A'', ''B''], gadj = [((''A'', ''B''), (- 49 / 10, ''C-UCL''))]\<rparr>"
  by (simp add: d_uv_def py_div_def non_transmission_delay_def add_edge_def add_node_def
      empty_graph_def)

section \<open>Path search\<close>

lemma succs_iff: "v \<in> set (succs G u) \<longleftrightarrow> edge_attr G u v \<noteq> None"
proof -
  have "v \<in> set (succs G u) \<longleftrightarrow> (u, v) \<in> fst ` set (gadj G)"
    unfolding succs_def by force
  then show ?thesis
    by (simp add: edge_attr_def map_of_eq_None_iff)
qed

lemma is_walk_Cons:
  "is_walk G (u # p) \<longleftrightarrow> (p = [] \<or> (edge_attr G u (hd p) \<noteq> None \<and> is_walk G p))"
  by (cases p) auto

lemma simple_paths_sound:
  "p \<in> set (simple_paths n G vis u t) \<Longrightarrow> u \<notin> set vis \<Longrightarrow>
   p \<noteq> [] \<and> hd p = u \<and> last p = t \<and> is_walk G p \<and> distinct p \<and> set p \<inter> set vis = {}"
proof (induction n arbitrary: vis u p)
  case 0
  then show ?case by (auto split: if_splits)
next
  case (Suc n)
  show ?case
  proof (cases "u = t")
    case True
    with Suc.prems show ?thesis by auto
  next
    case False
    with Suc.prems(1) obtain v p' where v: "v \<in> set (succs G u)" "v \<notin> set (u # vis)"
      and p': "p' \<in> set (simple_paths n G (u # vis) v t)" and p: "p = u # p'"
      by auto
    from Suc.IH [OF p' v(2)] have ih: "p' \<noteq> []" "hd p' = v" "last p' = t" "is_walk G p'"
      "distinct p'" "set p' \<inter> set (u # vis) = {}"
      by auto
    have "edge_attr G u v \<noteq> None" using v(1) by (simp add: succs_iff)
    then have "is_walk G (u # p')" using ih by (simp add: is_walk_Cons)
    moreover have "u \<notin> set p'" using ih(6) by auto
    ultimately show ?thesis using ih p Suc.prems(2) by auto
  qed
qed

lemma simple_paths_complete:
  "is_walk G p \<Longrightarrow> distinct p \<Longrightarrow> p \<noteq> [] \<Longrightarrow> hd p = u \<Longrightarrow> last p = t \<Longrightarrow>
   set p \<inter> set vis = {} \<Longrightarrow> length p \<le> Suc n \<Longrightarrow> p \<in> set (simple_paths n G vis u t)"
proof (induction n arbitrary: vis u p)
  case 0
  then have "p = [u]" by (cases p) auto
  with 0 show ?case by auto
next
  case (Suc n)
  obtain p' where p: "p = u # p'" using Suc.prems(3,4) by (cases p) auto
  show ?case
  proof (cases "u = t")
    case True
    have "p' = []"
    proof (rule ccontr)
      assume "p' \<noteq> []"
      then have "last p' = u" using Suc.prems(5) p True by simp
      then have "u \<in> set p'" using \<open>p' \<noteq> []\<close> last_in_set by metis
      then show False using Suc.prems(2) p by simp
    qed
    then show ?thesis using p True by simp
  next
    case False
    then have ne: "p' \<noteq> []" using Suc.prems(5) p by auto
    then obtain v rest where p': "p' = v # rest" by (cases p') auto
    have e: "edge_attr G u v \<noteq> None" and w: "is_walk G p'"
      using Suc.prems(1) p p' by auto
    have v: "v \<notin> set (u # vis)" using Suc.prems(2,6) p p' by auto
    have "p' \<in> set (simple_paths n G (u # vis) v t)"
    proof (rule Suc.IH [OF w])
      show "distinct p'" using Suc.prems(2) p by simp
      show "p' \<noteq> []" by (rule ne)
      show "hd p' = v" using p' by simp
      show "last p' = t" using Suc.prems(5) p ne by simp
      show "set p' \<inter> set (u # vis) = {}" using Suc.prems(2,6) p by auto
      show "length p' \<le> Suc n" using Suc.prems(7) p by simp
    qed
    moreover have "v \<in> set (succs G u)" using e by (simp add: succs_iff)
    ultimately show ?thesis using False v p by auto
  qed
qed

lemma first_min_mem: "first_min f b xs \<in> set (b # xs)"
  by (induction xs arbitrary: b) auto

lemma first_min_le: "x \<in> set (b # xs) \<Longrightarrow> f (first_min f b xs) \<le> f x"
proof (induction xs arbitrary: b x)
  case Nil
  then show ?case by simp
next
  case (Cons y ys)
  have step: "f (first_min f (if f y < f b then y else b) ys) \<le> f z"
    if "z \<in> set ((if f y < f b then y else b) # ys)" for z
    using Cons.IH that by blast
  have "f (first_min f (if f y < f b then y else b) ys) \<le> f (if f y < f b then y else b)"
    by (rule step) simp
  then have hd: "f (first_min f (if f y < f b then y else b) ys) \<le> f b"
    "f (first_min f (if f y < f b then y else b) ys) \<le> f y"
    by (auto split: if_splits)
  from Cons.prems consider "x = b" | "x = y" | "x \<in> set ys" by auto
  then show ?case
  proof cases
    case 3
    then show ?thesis using step [of x] by simp
  qed (use hd in auto)
qed

lemma err_bind_Inr_iff: "err_bind m f = Inr y \<longleftrightarrow> (\<exists>x. m = Inr x \<and> f x = Inr y)"
  by (cases m) auto

lemma err_bind_Inl_iff: "err_bind m f = Inl e \<longleftrightarrow> (m = Inl e \<or> (\<exists>x. m = Inr x \<and> f x = Inl e))"
  by (cases m) auto

lemma dijkstra_path_sound:
  assumes "dijkstra_path G s t w = Inr p"
  shows "p \<noteq> [] \<and> hd p = s \<and> last p = t \<and> is_walk G p \<and> distinct p"
proof -
  from assms obtain q qs where ps: "simple_paths (length (gnodes G)) G [] s t = q # qs"
    and p: "p = first_min (path_cost G w) q qs"
    by (auto simp: dijkstra_path_def split: if_splits list.splits)
  have "p \<in> set (simple_paths (length (gnodes G)) G [] s t)"
    unfolding ps p by (rule first_min_mem)
  from simple_paths_sound [OF this] show ?thesis by simp
qed

lemma shortest_path_sound:
  assumes "shortest_path G s t w = Inr p"
  shows "p \<noteq> [] \<and> hd p = s \<and> last p = t \<and> is_walk G p \<and> distinct p"
  using assms dijkstra_path_sound [of G s t w p]
  by (auto simp: shortest_path_def split: if_splits)

lemma shortest_path_dividing_sound:
  assumes "shortest_path_dividing G s t w = Inr p"
  shows "p \<noteq> [] \<and> hd p = s \<and> last p = t \<and> is_walk G p \<and> distinct p"
  using assms shortest_path_sound [of G s t w p]
  by (auto simp: shortest_path_dividing_def split: if_splits)

lemma is_walk_join:
  "p1 \<noteq> [] \<Longrightarrow> p2 \<noteq> [] \<Longrightarrow> last p1 = hd p2 \<Longrightarrow> is_walk G p1 \<Longrightarrow> is_walk G p2 \<Longrightarrow>
   is_walk G (butlast p1 @ p2) \<and> hd (butlast p1 @ p2) = hd p1 \<and> last (butlast p1 @ p2) = last p2"
proof (induction p1)
  case Nil
  then show ?case by simp
next
  case (Cons x xs)
  show ?case
  proof (cases xs)
    case Nil
    with Cons.prems show ?thesis by simp
  next
    case (Cons y ys)
    then have xs: "xs \<noteq> []" by simp
    have ih: "is_walk G (butlast xs @ p2)" "hd (butlast xs @ p2) = hd xs"
      using Cons.IH [OF xs Cons.prems(2)] Cons.prems xs by (auto simp: is_walk_Cons)
    have "edge_attr G x (hd xs) \<noteq> None" using Cons.prems(4) xs by (simp add: is_walk_Cons)
    then have "is_walk G (x # (butlast xs @ p2))"
      using ih Cons.prems(2) by (simp add: is_walk_Cons)
    then show ?thesis using xs Cons.prems(2) by simp
  qed
qed

lemma is_walk_nth:
  "is_walk G p \<longleftrightarrow> (\<forall>i. Suc i < length p \<longrightarrow> edge_attr G (p ! i) (p ! Suc i) \<noteq> None)"
proof (induction G p rule: is_walk.induct)
  case (1 G u v rest)
  show ?case
  proof
    assume a: "is_walk G (u # v # rest)"
    show "\<forall>i. Suc i < length (u # v # rest) \<longrightarrow>
            edge_attr G ((u # v # rest) ! i) ((u # v # rest) ! Suc i) \<noteq> None"
    proof (intro allI impI)
      fix i assume i: "Suc i < length (u # v # rest)"
      show "edge_attr G ((u # v # rest) ! i) ((u # v # rest) ! Suc i) \<noteq> None"
      proof (cases i)
        case 0
        then show ?thesis using a by simp
      next
        case (Suc j)
        then show ?thesis using a i 1 by simp
      qed
    qed
  next
    assume a: "\<forall>i. Suc i < length (u # v # rest) \<longrightarrow>
            edge_attr G ((u # v # rest) ! i) ((u # v # rest) ! Suc i) \<noteq> None"
    have "edge_attr G u v \<noteq> None" using a [rule_format, of 0] by simp
    moreover have "\<forall>i. Suc i < length (v # rest) \<longrightarrow>
            edge_attr G ((v # rest) ! i) ((v # rest) ! Suc i) \<noteq> None"
    proof (intro allI impI)
      fix i assume "Suc i < length (v # rest)"
      then show "edge_attr G ((v # rest) ! i) ((v # rest) ! Suc i) \<noteq> None"
        using a [rule_format, of "Suc i"] by simp
    qed
    ultimately show "is_walk G (u # v # rest)" using 1 by simp
  qed
qed simp_all

lemma is_walk_nodes:
  assumes "is_walk G p" and "2 \<le> length p"
    and "\<And>u v a. ((u, v), a) \<in> set (gadj G) \<Longrightarrow> u \<in> N \<and> v \<in> N"
  shows "set p \<subseteq> N"
  using assms
proof (induction G p rule: is_walk.induct)
  case (1 G u v rest)
  from "1.prems"(1) obtain a where a: "edge_attr G u v = Some a" by auto
  then have "((u, v), a) \<in> set (gadj G)" by (rule edge_attr_in_gadj)
  then have uv: "u \<in> N" "v \<in> N" using "1.prems"(3) by blast+
  show ?case
  proof (cases rest)
    case Nil
    then show ?thesis using uv by simp
  next
    case (Cons x xs)
    then have "set (v # rest) \<subseteq> N" using 1 by simp
    then show ?thesis using uv by simp
  qed
qed simp_all

section \<open>The results of the greedy strategies\<close>

lemma gadj_add_nodes_from [simp]: "gadj (add_nodes_from G ns) = gadj G"
  unfolding add_nodes_from_def by (induction ns arbitrary: G) auto

lemma gnodes_add_nodes_from [simp]: "set (gnodes (add_nodes_from G ns)) = set (gnodes G) \<union> set ns"
  unfolding add_nodes_from_def by (induction ns arbitrary: G) auto

lemma gnodes_add_edges_from:
  "set (gnodes (add_edges_from G es))
     = set (gnodes G) \<union> (\<lambda>(u, v, a). u) ` set es \<union> (\<lambda>(u, v, a). v) ` set es"
proof (induction es arbitrary: G)
  case Nil
  then show ?case by simp
next
  case (Cons e es)
  obtain u v a where e: "e = (u, v, a)" by (cases e) auto
  show ?case unfolding e by (simp add: Cons.IH) blast
qed

lemma edge_attr_add_edges_from:
  "edge_attr (add_edges_from G es) u v =
     (case map_of (rev (map (\<lambda>(u, v, a). ((u, v), a)) es)) (u, v) of
        None \<Rightarrow> edge_attr G u v | Some a \<Rightarrow> Some a)"
  unfolding edge_attr_def by (simp add: map_of_gadj_add_edges_from map_add_def)

lemma edge_attr_original_graph:
  "edge_attr (original_graph nodes edges) u v
     = map_of (rev (map (\<lambda>(u, v, a). ((u, v), a)) edges)) (u, v)"
  by (simp add: original_graph_def edge_attr_add_edges_from)
     (simp add: edge_attr_def empty_graph_def split: option.splits)

lemma edge_original_graph_iff:
  "edge_attr (original_graph nodes edges) u v \<noteq> None \<longleftrightarrow> (\<exists>l. (u, v, l) \<in> set edges)"
proof -
  have m: "(map_of xs k \<noteq> None) = (k \<in> fst ` set xs)" for xs :: "((node \<times> node) \<times> link) list" and k
    by (simp add: map_of_eq_None_iff)
  have "edge_attr (original_graph nodes edges) u v \<noteq> None
          \<longleftrightarrow> (u, v) \<in> fst ` set (rev (map (\<lambda>(u, v, a). ((u, v), a)) edges))"
    unfolding edge_attr_original_graph by (rule m)
  also have "\<dots> \<longleftrightarrow> (\<exists>l. (u, v, l) \<in> set edges)" by force
  finally show ?thesis .
qed

lemma gnodes_original_graph:
  "set (gnodes (original_graph nodes edges))
     = set nodes \<union> (\<lambda>(u, v, a). u) ` set edges \<union> (\<lambda>(u, v, a). v) ` set edges"
  by (simp add: original_graph_def gnodes_add_edges_from empty_graph_def)

lemma valid_compute_nodes_sound:
  "valid_compute_nodes G s d cns = Inr valid \<Longrightarrow> (c, dly, p1, p2) \<in> set valid \<Longrightarrow>
   c \<in> set cns \<and> shortest_path G s c propagation_delay = Inr p1
   \<and> shortest_path G c d propagation_delay = Inr p2
   \<and> path_sum G (\<lambda>a. Inr (propagation_delay a)) p1 = Inr dly"
proof (induction cns arbitrary: valid)
  case Nil
  then show ?case by simp
next
  case (Cons n cns)
  show ?case
  proof (cases "\<exists>q1 q2. shortest_path G s n propagation_delay = Inr q1
                  \<and> shortest_path G n d propagation_delay = Inr q2")
    case True
    then obtain q1 q2 where q: "shortest_path G s n propagation_delay = Inr q1"
      "shortest_path G n d propagation_delay = Inr q2" by blast
    from Cons.prems(1) q obtain dl more where
      dl: "path_sum G (\<lambda>a. Inr (propagation_delay a)) q1 = Inr dl"
      and more: "valid_compute_nodes G s d cns = Inr more"
      and v: "valid = (n, dl, q1, q2) # more"
      by (auto simp: err_bind_Inr_iff)
    from Cons.prems(2) v consider "(c, dly, p1, p2) = (n, dl, q1, q2)" | "(c, dly, p1, p2) \<in> set more"
      by auto
    then show ?thesis
    proof cases
      case 1
      then show ?thesis using q dl by simp
    next
      case 2
      then show ?thesis using Cons.IH [OF more] by simp
    qed
  next
    case False
    then have "valid_compute_nodes G s d cns = Inr valid"
      using Cons.prems(1) by (auto split: sum.splits if_splits)
    then show ?thesis using Cons.IH Cons.prems(2) by simp
  qed
qed

lemma ccn_result:
  assumes "find_closest_compute_node G s d cns caps fs om g = Inr (n, t, path)"
  shows "(n, t, path) = no_path_result
         \<or> (\<exists>valid c dly p1 p2 rest fwd ret cd.
              valid_compute_nodes G s d cns = Inr valid
              \<and> sort_key (\<lambda>x. fst (snd x)) valid = (c, dly, p1, p2) # rest
              \<and> delay_to_compute_node G fs p1 = Inr fwd
              \<and> path_sum G (return_term g fs) p2 = Inr ret
              \<and> compute_delay om fs caps c = Inr cd
              \<and> n = Some c \<and> t = Fin (fwd + ret + cd) \<and> path = butlast p1 @ p2)"
proof -
  from assms obtain valid where v: "valid_compute_nodes G s d cns = Inr valid"
    and r: "(case sort_key (\<lambda>x. fst (snd x)) valid of
         [] \<Rightarrow> Inr no_path_result
       | (closest_node, d, path_to_compute, path_compute_to_destination) # others \<Rightarrow>
           err_bind (delay_to_compute_node G fs path_to_compute)
             (\<lambda>forward_delay.
           err_bind (path_sum G (return_term g fs) path_compute_to_destination)
             (\<lambda>delay_compute_to_destination.
           err_bind (compute_delay om fs caps closest_node)
             (\<lambda>cd.
           let total_delay = forward_delay + delay_compute_to_destination + cd;
               full_path = butlast path_to_compute @ path_compute_to_destination
           in Inr (Some closest_node, Fin total_delay, full_path))))) = Inr (n, t, path)"
    unfolding find_closest_compute_node_def by (auto simp: err_bind_Inr_iff)
  show ?thesis
  proof (cases "sort_key (\<lambda>x. fst (snd x)) valid")
    case Nil
    then show ?thesis using r by simp
  next
    case (Cons x rest)
    obtain c dly p1 p2 where x: "x = (c, dly, p1, p2)" by (cases x) auto
    from r Cons x obtain fwd ret cd where
      "delay_to_compute_node G fs p1 = Inr fwd" "path_sum G (return_term g fs) p2 = Inr ret"
      "compute_delay om fs caps c = Inr cd" "n = Some c" "t = Fin (fwd + ret + cd)"
      "path = butlast p1 @ p2"
      by (auto simp: err_bind_Inr_iff Let_def)
    then show ?thesis using v Cons x by blast
  qed
qed

lemma mpcn_result:
  assumes "find_max_capacity_compute_node G s d cns caps fs om g = Inr (n, t, path)"
  shows "(n, t, path) = no_path_result
         \<or> (\<exists>c cap p1 p2 fwd ret cd.
              py_max snd caps = Inr (c, cap)
              \<and> shortest_path_dividing G s c (forward_weight fs) = Inr p1
              \<and> shortest_path_dividing G c d (return_weight g fs) = Inr p2
              \<and> path_sum G (forward_term fs) p1 = Inr fwd
              \<and> path_sum G (return_term g fs) p2 = Inr ret
              \<and> compute_delay om fs caps c = Inr cd
              \<and> n = Some c \<and> t = Fin (fwd + ret + cd) \<and> path = butlast p1 @ p2)"
proof -
  from assms obtain item where item: "py_max snd caps = Inr item"
    and r: "(let max_capacity_node = fst item;
           r = mpcn_try G s d caps fs om g max_capacity_node
       in if r = Inl NetworkXNoPath then Inr no_path_result else r) = Inr (n, t, path)"
    unfolding find_max_capacity_compute_node_def by (auto simp: err_bind_Inr_iff)
  obtain c cap where ic: "item = (c, cap)" by (cases item) auto
  show ?thesis
  proof (cases "mpcn_try G s d caps fs om g c = Inl NetworkXNoPath")
    case True
    then show ?thesis using r ic by (simp add: Let_def)
  next
    case False
    then have "mpcn_try G s d caps fs om g c = Inr (n, t, path)"
      using r ic by (simp add: Let_def)
    then show ?thesis using item ic
      unfolding mpcn_try_def by (auto simp: err_bind_Inr_iff Let_def)
  qed
qed

lemma wf_original_graph:
  assumes "((u, v), a) \<in> set (gadj (original_graph nodes edges))"
  shows "u \<in> set (gnodes (original_graph nodes edges)) \<and> v \<in> set (gnodes (original_graph nodes edges))"
proof -
  have "((u, v), a) \<in> (\<lambda>(u, v, a). ((u, v), a)) ` set edges"
    using assms gadj_add_edges_from_subset [of "add_nodes_from empty_graph nodes" edges]
    by (auto simp: original_graph_def empty_graph_def)
  then have "(u, v, a) \<in> set edges" by auto
  then show ?thesis unfolding gnodes_original_graph by force
qed

lemma shortest_path_nodes:
  assumes "shortest_path G s t w = Inr p"
    and "\<And>u v a. ((u, v), a) \<in> set (gadj G) \<Longrightarrow> u \<in> set (gnodes G) \<and> v \<in> set (gnodes G)"
  shows "set p \<subseteq> set (gnodes G)"
proof -
  have s: "s \<in> set (gnodes G)"
    using assms(1) by (auto simp: shortest_path_def dijkstra_path_def split: if_splits)
  have snd: "p \<noteq> []" "hd p = s" "is_walk G p"
    using shortest_path_sound [OF assms(1)] by auto
  show ?thesis
  proof (cases "2 \<le> length p")
    case True
    then show ?thesis using is_walk_nodes [OF snd(3) True] assms(2) by blast
  next
    case False
    then have "length p < 2" by simp
    then have "p = [s]" using snd(1,2) by (cases p) (auto simp: less_Suc_eq numeral_2_eq_2)
    then show ?thesis using s by simp
  qed
qed

lemma shortest_path_dividing_nodes:
  assumes "shortest_path_dividing G s t w = Inr p"
    and "\<And>u v a. ((u, v), a) \<in> set (gadj G) \<Longrightarrow> u \<in> set (gnodes G) \<and> v \<in> set (gnodes G)"
  shows "set p \<subseteq> set (gnodes G)"
  using assms shortest_path_nodes [of G s t w p]
  by (auto simp: shortest_path_dividing_def split: if_splits)

lemma joined_path_well_formed:
  assumes p1: "p1 \<noteq> [] \<and> hd p1 = s \<and> last p1 = c \<and> is_walk (original_graph nodes edges) p1 \<and> distinct p1"
    and p2: "p2 \<noteq> [] \<and> hd p2 = c \<and> last p2 = d \<and> is_walk (original_graph nodes edges) p2 \<and> distinct p2"
    and n1: "set p1 \<subseteq> set (gnodes (original_graph nodes edges))"
    and n2: "set p2 \<subseteq> set (gnodes (original_graph nodes edges))"
  shows "hd (butlast p1 @ p2) = s \<and> last (butlast p1 @ p2) = d
     \<and> (\<forall>i. Suc i < length (butlast p1 @ p2) \<longrightarrow>
           (\<exists>l. ((butlast p1 @ p2) ! i, (butlast p1 @ p2) ! Suc i, l) \<in> set edges))
     \<and> set (butlast p1 @ p2) \<subseteq> set nodes \<union> (\<lambda>(u, v, a). u) ` set edges \<union> (\<lambda>(u, v, a). v) ` set edges"
proof -
  have j: "is_walk (original_graph nodes edges) (butlast p1 @ p2)"
    "hd (butlast p1 @ p2) = hd p1" "last (butlast p1 @ p2) = last p2"
    using is_walk_join [of p1 p2 "original_graph nodes edges"] p1 p2 by auto
  have "set (butlast p1) \<subseteq> set p1" by (meson in_set_butlastD subsetI)
  then have "set (butlast p1 @ p2) \<subseteq> set (gnodes (original_graph nodes edges))"
    using n1 n2 by auto
  then show ?thesis
    using j p1 p2 unfolding is_walk_nth edge_original_graph_iff gnodes_original_graph by simp
qed

lemma greedy_paths_aux:
  assumes "find_closest_compute_node (original_graph nodes edges) s d cns caps fs om g
             = Inr (n, t, p)
           \<or> find_max_capacity_compute_node (original_graph nodes edges) s d cns caps fs om g
             = Inr (n, t, p)"
    and "p \<noteq> []"
  shows "hd p = s \<and> last p = d
     \<and> (\<forall>i. Suc i < length p \<longrightarrow> (\<exists>l. (p ! i, p ! Suc i, l) \<in> set edges))
     \<and> set p \<subseteq> set nodes \<union> (\<lambda>(u, v, a). u) ` set edges \<union> (\<lambda>(u, v, a). v) ` set edges"
proof -
  let ?G = "original_graph nodes edges"
  have wf: "\<And>u v a. ((u, v), a) \<in> set (gadj ?G) \<Longrightarrow> u \<in> set (gnodes ?G) \<and> v \<in> set (gnodes ?G)"
    by (rule wf_original_graph)
  have np: "(n, t, p) \<noteq> no_path_result"
    using assms(2) by (simp add: no_path_result_def)
  from assms(1) show ?thesis
  proof
    assume "find_closest_compute_node ?G s d cns caps fs om g = Inr (n, t, p)"
    from ccn_result [OF this] np obtain valid c dly p1 p2 rest where
      v: "valid_compute_nodes ?G s d cns = Inr valid"
      and hd: "sort_key (\<lambda>x. fst (snd x)) valid = (c, dly, p1, p2) # rest"
      and p: "p = butlast p1 @ p2"
      by blast
    have "(c, dly, p1, p2) \<in> set (sort_key (\<lambda>x. fst (snd x)) valid)" unfolding hd by simp
    then have "(c, dly, p1, p2) \<in> set valid" by simp
    from valid_compute_nodes_sound [OF v this]
    have sp: "shortest_path ?G s c propagation_delay = Inr p1"
      "shortest_path ?G c d propagation_delay = Inr p2" by auto
    show ?thesis unfolding p
      using shortest_path_sound [OF sp(1)] shortest_path_sound [OF sp(2)]
        shortest_path_nodes [OF sp(1) wf] shortest_path_nodes [OF sp(2) wf]
      by (intro joined_path_well_formed [where c=c]) auto
  next
    assume "find_max_capacity_compute_node ?G s d cns caps fs om g = Inr (n, t, p)"
    from mpcn_result [OF this] np obtain c p1 p2 where
      sp: "shortest_path_dividing ?G s c (forward_weight fs) = Inr p1"
      "shortest_path_dividing ?G c d (return_weight g fs) = Inr p2"
      and p: "p = butlast p1 @ p2"
      by blast
    show ?thesis unfolding p
      using shortest_path_dividing_sound [OF sp(1)] shortest_path_dividing_sound [OF sp(2)]
        shortest_path_dividing_nodes [OF sp(1) wf] shortest_path_dividing_nodes [OF sp(2) wf]
      by (intro joined_path_well_formed [where c=c]) auto
  qed
qed

lemma cpeg_path_ends:
  assumes "cpeg_algorithm nodes edges cns caps s d fs g om = Inr (q, w)"
  shows "q \<noteq> [] \<and> hd q = s \<and> last q = d @ ''_3''"
proof -
  from assms obtain G :: "(real \<times> string) digraph"
    where "dijkstra_path G s (d @ ''_3'') fst = Inr q"
    unfolding cpeg_algorithm_def by (auto simp: err_bind_Inr_iff Let_def split: prod.splits)
  from dijkstra_path_sound [OF this] show ?thesis by simp
qed

text \<open>
  C7 (as amended). A non-empty path returned by CCN or by MPCN starts at the source, ends
  at the destination, steps along directed edges of the original network only, and
  consists of original node identifiers. The CPEG script reports its path in the node
  names of the expanded graph: it starts at the source and ends at the downstream copy
  \<open>destination_3\<close> of the destination.
\<close>

theorem greedy_paths_well_formed:
  "((find_closest_compute_node (original_graph nodes edges) s d cns caps fs om g
       = Inr (n, t, p)
     \<or> find_max_capacity_compute_node (original_graph nodes edges) s d cns caps fs om g
       = Inr (n, t, p)) \<and> p \<noteq> []
    \<longrightarrow> hd p = s \<and> last p = d
        \<and> (\<forall>i. Suc i < length p \<longrightarrow> (\<exists>l. (p ! i, p ! Suc i, l) \<in> set edges))
        \<and> set p \<subseteq> set nodes \<union> (\<lambda>(u, v, a). u) ` set edges \<union> (\<lambda>(u, v, a). v) ` set edges)
   \<and> (cpeg_algorithm nodes edges cns caps s d fs g om = Inr (q, w)
        \<longrightarrow> q \<noteq> [] \<and> hd q = s \<and> last q = d @ ''_3'')"
  using greedy_paths_aux [of nodes edges s d cns caps fs om g n t p]
    cpeg_path_ends [of nodes edges cns caps s d fs g om q w]
  by blast

theorem greedy_paths_well_formed_witness:
  "find_closest_compute_node
     (original_graph [''A'', ''B'', ''D'']
        [(''A'', ''B'', \<lparr>bandwidth = 1000, propagation_delay = 1, processing_delay = 1 / 10,
                          queuing_delay = 0, jitter = 0\<rparr>),
         (''B'', ''D'', \<lparr>bandwidth = 1000, propagation_delay = 1, processing_delay = 1 / 10,
                          queuing_delay = 0, jitter = 0\<rparr>)])
     ''A'' ''D'' [''B''] [(''B'', 10000)] 100 10 2
   = Inr (Some ''B'', Fin (13 / 5), [''A'', ''B'', ''D''])
   \<and> hd [''A'', ''B'', ''D''] = ''A'' \<and> last [''A'', ''B'', ''D''] = ''D''"
proof -
  have h: "find_closest_compute_node
     (original_graph [''A'', ''B'', ''D'']
        [(''A'', ''B'', \<lparr>bandwidth = 1000, propagation_delay = 1, processing_delay = 1 / 10,
                          queuing_delay = 0, jitter = 0\<rparr>),
         (''B'', ''D'', \<lparr>bandwidth = 1000, propagation_delay = 1, processing_delay = 1 / 10,
                          queuing_delay = 0, jitter = 0\<rparr>)])
     ''A'' ''D'' [''B''] [(''B'', 10000)] 100 10 2
   = Inr (Some ''B'', Fin (13 / 5), [''A'', ''B'', ''D''])"
    by code_simp
  have ne: "[''A'', ''B'', ''D''] \<noteq> []" by simp
  from greedy_paths_well_formed [of "[''A'', ''B'', ''D'']" _ "''A''" "''D''" "[''B'']"
      "[(''B'', 10000)]" 100 10 2 "Some ''B''" "Fin (13 / 5)" "[''A'', ''B'', ''D'']"] h ne
  show ?thesis by blast
qed

text \<open>
  C7 as stated fails for CPEG: the path it reports is not translated back, it contains
  the copies \<open>B_2\<close>, \<open>B_3\<close> and ends at \<open>D_3\<close>, not at the destination \<open>D\<close>.
\<close>

theorem cpeg_path_expanded_names_counterexample:
  "cpeg_algorithm [''A'', ''B'', ''D'']
        [(''A'', ''B'', \<lparr>bandwidth = 1000, propagation_delay = 1, processing_delay = 1 / 10,
                          queuing_delay = 0, jitter = 0\<rparr>),
         (''B'', ''D'', \<lparr>bandwidth = 1000, propagation_delay = 1, processing_delay = 1 / 10,
                          queuing_delay = 0, jitter = 0\<rparr>)]
     [''B''] [(''B'', 10000)] ''A'' ''D'' 100 2 10
   = Inr ([''A'', ''B'', ''B_2'', ''B_3'', ''D_3''], 13 / 5)"
  by code_simp

section \<open>Networks without compute nodes\<close>

lemma simple_paths_closed:
  assumes closed: "\<And>u v a. ((u, v), a) \<in> set (gadj G) \<Longrightarrow> P u \<Longrightarrow> P v"
  shows "P u \<Longrightarrow> \<not> P t \<Longrightarrow> simple_paths n G vis u t = []"
proof (induction n arbitrary: vis u)
  case 0
  then show ?case by auto
next
  case (Suc n)
  have ne: "u \<noteq> t" using Suc.prems by auto
  have "simple_paths n G (u # vis) v t = []" if "v \<in> set (succs G u)" for v
  proof -
    from that obtain a where "edge_attr G u v = Some a" by (auto simp: succs_iff)
    then have "((u, v), a) \<in> set (gadj G)" by (rule edge_attr_in_gadj)
    then have "P v" using closed Suc.prems(1) by blast
    then show ?thesis using Suc.IH Suc.prems(2) by blast
  qed
  then show ?case using ne by (auto simp: concat_eq_Nil_conv)
qed

lemma weighted_key:
  "weighted fs g om caps e = (u, v, a) \<Longrightarrow> \<exists>ed layer. e = (u, v, ed, layer)"
  by (cases e) (auto simp: weighted_def)

lemma cpeg_no_compute_nodes:
  assumes net: "valid_network nodes edges [] caps"
    and flow: "valid_flow [] s d fs g om"
    and plain: "plain_names nodes" and s: "s \<in> set nodes"
  shows "cpeg_algorithm nodes edges [] caps s d fs g om = Inl NetworkXNoPath
       \<or> cpeg_algorithm nodes edges [] caps s d fs g om = Inl NodeNotFound"
proof -
  define E where "E = map (\<lambda>(u, v, weight). (u, v, Attrs weight, ''C-UCL''))
              (filter (\<lambda>(u, v, weight). v \<noteq> d) edges)
          @ map (\<lambda>(u, v, weight). (u @ ''_3'', v @ ''_3'', Attrs weight, ''C-DCL''))
              (filter (\<lambda>(u, v, weight). u \<noteq> s \<and> v \<noteq> s) edges)"
  define V where "V = nodes @ map (\<lambda>node. node @ ''_3'') (filter (\<lambda>node. node \<noteq> s) nodes)"
  define G :: "(real \<times> string) digraph"
    where "G = add_edges_from empty_graph (map (weighted fs g om caps) E)"
  have ex: "expand_network nodes edges [] caps s d = Inr (V, E)"
    by (simp add: expand_network_def E_def V_def)
  have "\<forall>(u, v, ed, layer) \<in> set E. \<exists>w. d_uv fs g om caps u v layer ed = Inr w"
    using d_uv_nonneg [OF net flow ex] by blast
  then have b: "build_graph fs g om caps E empty_graph = Inr G"
    unfolding G_def by (rule build_graph_ok)
  have pl: "CHR ''_'' \<notin> set n" if "n \<in> set nodes" for n
    using plain that by (simp add: plain_names_def list_all_iff)
  have ends: "u \<in> set nodes \<and> v \<in> set nodes" if "(u, v, l) \<in> set edges" for u v l
    using net that by (auto simp: valid_network_def list_all_iff)
  have closed: "CHR ''_'' \<notin> set v" if "((u, v), a) \<in> set (gadj G)" "CHR ''_'' \<notin> set u" for u v a
  proof -
    from that(1) have "(u, v, a) \<in> set (map (weighted fs g om caps) E)"
      using gadj_add_edges_from_subset [of empty_graph "map (weighted fs g om caps) E"]
      unfolding G_def by (auto simp: empty_graph_def)
    then obtain e where "e \<in> set E" "weighted fs g om caps e = (u, v, a)" by auto
    then obtain ed layer where "(u, v, ed, layer) \<in> set E" using weighted_key by blast
    then have "(\<exists>l. (u, v, l) \<in> set edges) \<or> (\<exists>x. u = x @ ''_3'')"
      unfolding E_def by auto
    then show ?thesis using that(2) ends pl by auto
  qed
  have "simple_paths n G [] s (d @ ''_3'') = []" for n
    by (rule simple_paths_closed [where P="\<lambda>n. CHR ''_'' \<notin> set n"])
       (use closed pl s in auto)
  then have "dijkstra_path G s (d @ ''_3'') fst = Inl NetworkXNoPath
           \<or> dijkstra_path G s (d @ ''_3'') fst = Inl NodeNotFound"
    by (simp add: dijkstra_path_def)
  then show ?thesis
    unfolding cpeg_algorithm_def by (auto simp: ex b)
qed

text \<open>
  C6 (as amended). On a valid network without compute nodes, with node names free of
  underscores, CCN returns the no-path result \<open>(None, inf, [])\<close>, while the CPEG script
  returns nothing: its search ends in the library's exception for an unreachable target
  (or for a source that is not in the expanded graph), which the script does not catch.
\<close>

theorem empty_compute_set:
  assumes "valid_network nodes edges [] caps" and "valid_flow [] s d fs g om"
    and "plain_names nodes" and "s \<in> set nodes"
  shows "find_closest_compute_node (original_graph nodes edges) s d [] caps fs om g
           = Inr no_path_result
       \<and> (cpeg_algorithm nodes edges [] caps s d fs g om = Inl NetworkXNoPath
          \<or> cpeg_algorithm nodes edges [] caps s d fs g om = Inl NodeNotFound)"
  using cpeg_no_compute_nodes [OF assms]
  by (simp add: find_closest_compute_node_def)

theorem empty_compute_set_witness:
  "find_closest_compute_node
     (original_graph [''A'', ''D'']
        [(''A'', ''D'', \<lparr>bandwidth = 1000, propagation_delay = 1, processing_delay = 1 / 10,
                          queuing_delay = 0, jitter = 0\<rparr>)])
     ''A'' ''D'' [] [] 100 10 2 = Inr no_path_result
   \<and> (cpeg_algorithm [''A'', ''D'']
        [(''A'', ''D'', \<lparr>bandwidth = 1000, propagation_delay = 1, processing_delay = 1 / 10,
                          queuing_delay = 0, jitter = 0\<rparr>)]
        [] [] ''A'' ''D'' 100 2 10 = Inl NetworkXNoPath
      \<or> cpeg_algorithm [''A'', ''D'']
        [(''A'', ''D'', \<lparr>bandwidth = 1000, propagation_delay = 1, processing_delay = 1 / 10,
                          queuing_delay = 0, jitter = 0\<rparr>)]
        [] [] ''A'' ''D'' 100 2 10 = Inl NodeNotFound)"
  by (rule empty_compute_set)
     (simp_all add: valid_network_def valid_flow_def valid_link_def plain_names_def)

text \<open>
  C6 as stated fails: with no compute node the CPEG script raises \<open>NetworkXNoPath\<close>
  instead of returning the no-path result.
\<close>

theorem cpeg_empty_compute_set_counterexample:
  "cpeg_algorithm [''A'', ''B'', ''D'']
        [(''A'', ''B'', \<lparr>bandwidth = 1000, propagation_delay = 1, processing_delay = 1 / 10,
                          queuing_delay = 0, jitter = 0\<rparr>),
         (''B'', ''D'', \<lparr>bandwidth = 1000, propagation_delay = 1, processing_delay = 1 / 10,
                          queuing_delay = 0, jitter = 0\<rparr>)]
        [] [] ''A'' ''D'' 100 2 10 = Inl NetworkXNoPath"
  by code_simp

text \<open>
  MPCN takes the maximum over the capacity entries before its \<open>try\<close> block, so an
  empty capacity dictionary ends in \<open>ValueError\<close>.
\<close>

lemma mpcn_empty_compute_set:
  "find_max_capacity_compute_node G s d [] [] fs om g = Inl ValueError"
  by (simp add: find_max_capacity_compute_node_def)

section \<open>Optimality of the path search\<close>

lemma path_cost_append:
  "path_cost G w (xs @ v # ys) = path_cost G w (xs @ [v]) + path_cost G w (v # ys)"
proof (induction xs rule: induct_list012)
  case 1
  then show ?case by simp
next
  case (2 x)
  then show ?case by simp
next
  case (3 x y zs)
  then show ?case by simp
qed

lemma is_walk_append:
  "is_walk G (xs @ v # ys) \<longleftrightarrow> is_walk G (xs @ [v]) \<and> is_walk G (v # ys)"
proof (induction xs)
  case Nil
  then show ?case by simp
next
  case (Cons x xs)
  then show ?case by (cases xs) auto
qed

lemma path_cost_nonneg:
  assumes "\<And>k a. (k, a) \<in> set (gadj G) \<Longrightarrow> 0 \<le> w a"
  shows "0 \<le> path_cost G w p"
  using assms
proof (induction G w p rule: path_cost.induct)
  case (1 G w u v rest)
  have "0 \<le> (case edge_attr G u v of None \<Rightarrow> 0 | Some a \<Rightarrow> w a)"
    using "1.prems" edge_attr_in_gadj [of G u v] by (auto split: option.splits)
  moreover have "0 \<le> path_cost G w (v # rest)" using 1 by blast
  ultimately show ?case by simp
qed simp_all

lemma remove_loops:
  assumes nonneg: "\<And>k a. (k, a) \<in> set (gadj G) \<Longrightarrow> 0 \<le> w a"
  shows "is_walk G p \<Longrightarrow> p \<noteq> [] \<Longrightarrow>
         \<exists>q. is_walk G q \<and> distinct q \<and> q \<noteq> [] \<and> hd q = hd p \<and> last q = last p
             \<and> set q \<subseteq> set p \<and> path_cost G w q \<le> path_cost G w p"
proof (induction "length p" arbitrary: p rule: less_induct)
  case less
  show ?case
  proof (cases "distinct p")
    case True
    then show ?thesis using less.prems by blast
  next
    case False
    then obtain xs ys zs y where p: "p = xs @ [y] @ ys @ [y] @ zs"
      using not_distinct_decomp by blast
    define r where "r = xs @ y # zs"
    have "is_walk G (xs @ y # (ys @ y # zs))" using less.prems(1) unfolding p by simp
    then have w1: "is_walk G (xs @ [y])" and w3: "is_walk G ((y # ys) @ y # zs)"
      using is_walk_append [of G xs y "ys @ y # zs"] by simp_all
    have w2: "is_walk G (y # zs)"
      using w3 is_walk_append [of G "y # ys" y zs] by blast
    have walk: "is_walk G r" using w1 w2 is_walk_append [of G xs y zs] by (simp add: r_def)
    have cost: "path_cost G w p = path_cost G w (xs @ [y]) + path_cost G w (y # ys @ [y])
                  + path_cost G w (y # zs)"
    proof -
      have "path_cost G w p = path_cost G w (xs @ [y]) + path_cost G w (y # ys @ y # zs)"
        unfolding p using path_cost_append [of G w xs y "ys @ y # zs"] by simp
      also have "path_cost G w (y # ys @ y # zs)
                   = path_cost G w (y # ys @ [y]) + path_cost G w (y # zs)"
        using path_cost_append [of G w "y # ys" y zs] by simp
      finally show ?thesis by simp
    qed
    have "0 \<le> path_cost G w (y # ys @ [y])" using nonneg by (rule path_cost_nonneg)
    then have le: "path_cost G w r \<le> path_cost G w p"
      using cost path_cost_append [of G w xs y zs] by (simp add: r_def)
    have "length r < length p" unfolding p r_def by simp
    moreover have "r \<noteq> []" by (simp add: r_def)
    ultimately obtain q where q: "is_walk G q" "distinct q" "q \<noteq> []" "hd q = hd r"
      "last q = last r" "set q \<subseteq> set r" "path_cost G w q \<le> path_cost G w r"
      using less.hyps walk by blast
    have "hd r = hd p" unfolding p r_def by (cases xs) auto
    moreover have "last r = last p" unfolding p r_def by simp
    moreover have "set r \<subseteq> set p" unfolding p r_def by auto
    ultimately show ?thesis using q le by (intro exI [of _ q]) auto
  qed
qed

lemma walk_in_nodes:
  assumes "wf_graph G" and "is_walk G p" and "p \<noteq> []" and "hd p \<in> set (gnodes G)"
  shows "set p \<subseteq> set (gnodes G)"
proof (cases "2 \<le> length p")
  case True
  show ?thesis
    by (rule is_walk_nodes [OF assms(2) True]) (use assms(1) in \<open>auto simp: wf_graph_def\<close>)
next
  case False
  then have "length p < 2" by simp
  then have "p = [hd p]" using assms(3) by (cases p) (auto simp: less_Suc_eq numeral_2_eq_2)
  then have "set p = {hd p}" by (metis empty_set list.simps(15))
  then show ?thesis using assms(4) by simp
qed

lemma distinct_length_le:
  assumes "distinct q" and "set q \<subseteq> set ns"
  shows "length q \<le> length ns"
proof -
  have "length q = card (set q)" using assms(1) by (simp add: distinct_card)
  also have "\<dots> \<le> card (set ns)" using assms(2) by (simp add: card_mono)
  also have "\<dots> \<le> length ns" by (rule card_length)
  finally show ?thesis .
qed

lemma simple_walk_enumerated:
  assumes wf: "wf_graph G" and s: "s \<in> set (gnodes G)"
    and q: "is_walk G q" "distinct q" "q \<noteq> []" "hd q = s" "last q = t"
  shows "q \<in> set (simple_paths (length (gnodes G)) G [] s t)"
proof -
  have "set q \<subseteq> set (gnodes G)"
    using walk_in_nodes [OF wf q(1,3)] q(4) s by simp
  then have "length q \<le> length (gnodes G)"
    by (rule distinct_length_le [OF q(2)])
  then have "length q \<le> Suc (length (gnodes G))" by simp
  then show ?thesis using q by (intro simple_paths_complete) auto
qed

lemma dijkstra_path_optimal:
  assumes wf: "wf_graph G"
    and nonneg: "\<And>k a. (k, a) \<in> set (gadj G) \<Longrightarrow> 0 \<le> w a"
    and res: "dijkstra_path G s t w = Inr p"
    and q: "is_walk G q" "q \<noteq> []" "hd q = s" "last q = t"
  shows "path_cost G w p \<le> path_cost G w q"
proof -
  from res have s: "s \<in> set (gnodes G)"
    by (auto simp: dijkstra_path_def split: if_splits)
  from res obtain r rs where ps: "simple_paths (length (gnodes G)) G [] s t = r # rs"
    and p: "p = first_min (path_cost G w) r rs"
    by (auto simp: dijkstra_path_def split: if_splits list.splits)
  have "\<exists>q1. is_walk G q1 \<and> distinct q1 \<and> q1 \<noteq> [] \<and> hd q1 = hd q \<and> last q1 = last q
             \<and> set q1 \<subseteq> set q \<and> path_cost G w q1 \<le> path_cost G w q"
    by (rule remove_loops [OF _ q(1,2)]) (rule nonneg)
  then obtain q1 where q1: "is_walk G q1" "distinct q1"
    "q1 \<noteq> []" "hd q1 = s" "last q1 = t" "path_cost G w q1 \<le> path_cost G w q"
    using q(3,4) by auto
  have "q1 \<in> set (simple_paths (length (gnodes G)) G [] s t)"
    using simple_walk_enumerated [OF wf s q1(1-5)] .
  then have "path_cost G w p \<le> path_cost G w q1"
    unfolding p ps by (rule first_min_le)
  then show ?thesis using q1(6) by simp
qed

lemma dijkstra_path_exists:
  assumes wf: "wf_graph G" and s: "s \<in> set (gnodes G)"
    and q: "is_walk G q" "q \<noteq> []" "hd q = s" "last q = t"
  shows "\<exists>p. dijkstra_path G s t w = Inr p"
proof -
  have "\<exists>q1. is_walk G q1 \<and> distinct q1 \<and> q1 \<noteq> [] \<and> hd q1 = hd q \<and> last q1 = last q
             \<and> set q1 \<subseteq> set q \<and> path_cost G (\<lambda>a. 0) q1 \<le> path_cost G (\<lambda>a. 0) q"
    by (rule remove_loops [OF _ q(1,2)]) simp
  then obtain q1 where q1: "is_walk G q1" "distinct q1" "q1 \<noteq> []" "hd q1 = s" "last q1 = t"
    using q(3,4) by auto
  have "q1 \<in> set (simple_paths (length (gnodes G)) G [] s t)"
    using simple_walk_enumerated [OF wf s q1(1-5)] .
  then show ?thesis using s
    by (cases "simple_paths (length (gnodes G)) G [] s t") (auto simp: dijkstra_path_def)
qed





lemma path_sum_plain:
  "is_walk G p \<Longrightarrow> path_sum G (\<lambda>a. Inr (f a)) p = Inr (path_cost G f p)"
  using path_sum_total [of G "\<lambda>a. Inr (f a)" f p] by simp



lemma return_term_eq:
  "bandwidth a \<noteq> 0 \<Longrightarrow> return_term g fs a = Inr (return_weight g fs a)"
  by (simp add: return_term_def return_weight_def py_div_def)

lemma forward_term_eq:
  "bandwidth a \<noteq> 0 \<Longrightarrow> forward_term fs a = Inr (forward_weight fs a)"
  by (simp add: forward_term_def forward_weight_def py_div_def)

lemma path_sum_return:
  assumes "\<forall>(k, a) \<in> set (gadj G). bandwidth a \<noteq> 0" and "is_walk G p"
  shows "path_sum G (return_term g fs) p = Inr (path_cost G (return_weight g fs) p)"
proof -
  have "\<And>u v a. edge_attr G u v = Some a \<Longrightarrow> return_term g fs a = Inr (return_weight g fs a)"
    using assms(1) by (auto dest!: edge_attr_in_gadj intro: return_term_eq)
  from path_sum_total [of G "return_term g fs" "return_weight g fs" p, OF this] assms(2)
  show ?thesis by simp
qed

lemma path_sum_forward:
  assumes "\<forall>(k, a) \<in> set (gadj G). bandwidth a \<noteq> 0" and "is_walk G p"
  shows "path_sum G (forward_term fs) p = Inr (path_cost G (forward_weight fs) p)"
proof -
  have "\<And>u v a. edge_attr G u v = Some a \<Longrightarrow> forward_term fs a = Inr (forward_weight fs a)"
    using assms(1) by (auto dest!: edge_attr_in_gadj intro: forward_term_eq)
  from path_sum_total [of G "forward_term fs" "forward_weight fs" p, OF this] assms(2)
  show ?thesis by simp
qed

lemma original_graph_links:
  assumes "valid_network nodes edges cns caps"
    and "(k, a) \<in> set (gadj (original_graph nodes edges))"
  shows "valid_link a"
proof -
  have "(k, a) \<in> (\<lambda>(u, v, a). ((u, v), a)) ` set edges"
    using assms(2) gadj_add_edges_from_subset [of "add_nodes_from empty_graph nodes" edges]
    by (auto simp: original_graph_def empty_graph_def)
  then show ?thesis using assms(1) by (auto simp: valid_network_def list_all_iff)
qed

section \<open>The CCN algorithm\<close>





section \<open>The edges of the expanded graph\<close>

lemma edge_attr_built:
  "edge_attr (add_edges_from empty_graph es) u v = map_of (rev (keyed es)) (u, v)"
  by (simp add: edge_attr_add_edges_from keyed_def)
     (simp add: edge_attr_def empty_graph_def split: option.splits)

lemma edge_attr_original_keyed:
  "edge_attr (original_graph nodes edges) u v = map_of (rev (keyed edges)) (u, v)"
  by (simp add: edge_attr_original_graph keyed_def)

lemma map_of_map_filter:
  assumes "inj \<phi>"
  shows "map_of (map (\<lambda>(u, v, l). (\<phi> (u, v), F l)) (filter (\<lambda>(u, v, l). P (u, v)) xs)) (\<phi> k)
           = (if P k then map_option F (map_of (keyed xs) k) else None)"
proof (induction xs)
  case Nil
  then show ?case by (simp add: keyed_def)
next
  case (Cons e xs)
  obtain u v l where e: "e = (u, v, l)" by (cases e) auto
  show ?case
  proof (cases "(u, v) = k")
    case True
    then show ?thesis using Cons.IH unfolding e by (auto simp: keyed_def)
  next
    case False
    then have "\<phi> (u, v) \<noteq> \<phi> k" using assms by (auto dest: injD)
    then show ?thesis using Cons.IH False unfolding e by (auto simp: keyed_def)
  qed
qed

lemma map_of_rev_map_filter:
  assumes "inj \<phi>"
  shows "map_of (rev (map (\<lambda>(u, v, l). (\<phi> (u, v), F l)) (filter (\<lambda>(u, v, l). P (u, v)) xs))) (\<phi> k)
           = (if P k then map_option F (map_of (rev (keyed xs)) k) else None)"
  using map_of_map_filter [OF assms, of F P "rev xs" k]
  by (simp add: rev_map rev_filter keyed_def)

lemma map_of_const:
  assumes "k \<in> fst ` set xs" and "\<And>v'. (k, v') \<in> set xs \<Longrightarrow> v' = v"
  shows "map_of xs k = Some v"
proof -
  from assms(1) obtain v' where "map_of xs k = Some v'"
    by (metis map_of_eq_None_iff not_Some_eq)
  then show ?thesis using assms(2) map_of_SomeD by fastforce
qed

lemma map_add_skip: "k \<notin> dom m2 \<Longrightarrow> (m1 ++ m2) k = m1 k"
  by (simp add: map_add_def domIff split: option.splits)

lemma dom_map_of_rev: "dom (map_of (rev xs)) = fst ` set xs"
  by (simp add: dom_map_of_conv_image_fst)

lemma edge_weight_ucl:
  "edge_weight fs g om caps (u, v, Attrs l, ''C-UCL'')
     = (if bandwidth l = 0 then 0 else forward_weight fs l)"
  by (simp add: edge_weight_def d_uv_def py_div_def non_transmission_delay_def forward_weight_def)

lemma edge_weight_dcl:
  "edge_weight fs g om caps (u, v, Attrs l, ''C-DCL'')
     = (if bandwidth l = 0 then 0 else return_weight g fs l)"
  by (simp add: edge_weight_def d_uv_def py_div_def non_transmission_delay_def return_weight_def)

lemma edge_weight_enter:
  "edge_weight fs g om caps (n, v, CapacityDict c, ''UCL-CL'')
     = (if caps_get caps (split_head v) 1 = 0 then 0
        else om * fs / caps_get caps (split_head v) 1)"
  by (simp add: edge_weight_def d_uv_def py_div_def)

lemma edge_weight_link:
  "edge_weight fs g om caps (u, v, Number 0, ''CL-DCL'') = 0"
  by (simp add: edge_weight_def d_uv_def)

lemma keyed_append [simp]: "keyed (xs @ ys) = keyed xs @ keyed ys"
  by (simp add: keyed_def)

lemma keyed_weighted_expanded:
  assumes caps: "\<forall>n \<in> set cns. map_of caps n \<noteq> None"
    and ex: "expand_network nodes edges cns caps s d = Inr (V, E)"
  shows "keyed (map (weighted fs g om caps) E)
     = map (\<lambda>(u, v, l). ((u, v), (if bandwidth l = 0 then 0 else forward_weight fs l, ''C-UCL'')))
          (filter (\<lambda>(u, v, l). v \<noteq> d) edges)
       @ map (\<lambda>n. ((n, n @ ''_2''),
                   (if caps_get caps (split_head (n @ ''_2'')) 1 = 0 then 0
                    else om * fs / caps_get caps (split_head (n @ ''_2'')) 1, ''UCL-CL''))) cns
       @ map (\<lambda>n. ((n @ ''_2'', n @ ''_3''), (0, ''CL-DCL''))) cns
       @ map (\<lambda>(u, v, l). ((u @ ''_3'', v @ ''_3''),
                   (if bandwidth l = 0 then 0 else return_weight g fs l, ''C-DCL'')))
          (filter (\<lambda>(u, v, l). u \<noteq> s \<and> v \<noteq> s) edges)"
proof -
  have a: "keyed (map (weighted fs g om caps)
              (map (\<lambda>(u, v, weight). (u, v, Attrs weight, ''C-UCL'')) xs))
         = map (\<lambda>(u, v, l). ((u, v), (if bandwidth l = 0 then 0 else forward_weight fs l, ''C-UCL''))) xs"
    for xs :: "(node \<times> node \<times> link) list"
    by (induction xs) (auto simp: keyed_def weighted_def edge_weight_ucl)
  have b: "keyed (map (weighted fs g om caps)
              (map (\<lambda>n. (n, n @ ''_2'', CapacityDict (the (map_of caps n)), ''UCL-CL'')) ns))
         = map (\<lambda>n. ((n, n @ ''_2''),
                   (if caps_get caps (split_head (n @ ''_2'')) 1 = 0 then 0
                    else om * fs / caps_get caps (split_head (n @ ''_2'')) 1, ''UCL-CL''))) ns"
    for ns
    by (induction ns) (auto simp: keyed_def weighted_def edge_weight_enter)
  have c: "keyed (map (weighted fs g om caps)
              (map (\<lambda>node. (node @ ''_2'', node @ ''_3'', Number 0, ''CL-DCL'')) ns))
         = map (\<lambda>n. ((n @ ''_2'', n @ ''_3''), (0, ''CL-DCL''))) ns"
    for ns
    by (induction ns) (auto simp: keyed_def weighted_def edge_weight_link)
  have d: "keyed (map (weighted fs g om caps)
              (map (\<lambda>(u, v, weight). (u @ ''_3'', v @ ''_3'', Attrs weight, ''C-DCL'')) xs))
         = map (\<lambda>(u, v, l). ((u @ ''_3'', v @ ''_3''),
                   (if bandwidth l = 0 then 0 else return_weight g fs l, ''C-DCL''))) xs"
    for xs :: "(node \<times> node \<times> link) list"
    by (induction xs) (auto simp: keyed_def weighted_def edge_weight_dcl)
  have "E = map (\<lambda>(u, v, weight). (u, v, Attrs weight, ''C-UCL''))
              (filter (\<lambda>(u, v, weight). v \<noteq> d) edges)
          @ map (\<lambda>n. (n, n @ ''_2'', CapacityDict (the (map_of caps n)), ''UCL-CL'')) cns
          @ map (\<lambda>node. (node @ ''_2'', node @ ''_3'', Number 0, ''CL-DCL'')) cns
          @ map (\<lambda>(u, v, weight). (u @ ''_3'', v @ ''_3'', Attrs weight, ''C-DCL''))
              (filter (\<lambda>(u, v, weight). u \<noteq> s \<and> v \<noteq> s) edges)"
    using ex unfolding expand_network_ok [OF caps] by simp
  then show ?thesis
    by (simp only: map_append keyed_append a b c d)
qed

lemma map_of_rev_append4:
  "map_of (rev (A @ B @ C @ D)) k =
     (case map_of (rev D) k of Some v \<Rightarrow> Some v
      | None \<Rightarrow> (case map_of (rev C) k of Some v \<Rightarrow> Some v
        | None \<Rightarrow> (case map_of (rev B) k of Some v \<Rightarrow> Some v
          | None \<Rightarrow> map_of (rev A) k)))"
  by (simp add: map_add_def split: option.splits)

lemma map_of_rev_None: "k \<notin> fst ` set xs \<Longrightarrow> map_of (rev xs) k = None"
  by (simp add: map_of_eq_None_iff)

lemma plain_suffix: "CHR ''_'' \<notin> set u \<Longrightarrow> u \<noteq> x @ CHR ''_'' # r"
  by auto

lemma edge_attr_built_graph:
  assumes caps: "\<forall>n \<in> set cns. map_of caps n \<noteq> None"
    and ex: "expand_network nodes edges cns caps s d = Inr (V, E)"
  shows "edge_attr (built_graph fs g om caps E) a b =
     (case map_of (rev (map (\<lambda>(u, v, l). ((u @ ''_3'', v @ ''_3''),
                   (if bandwidth l = 0 then 0 else return_weight g fs l, ''C-DCL'')))
          (filter (\<lambda>(u, v, l). u \<noteq> s \<and> v \<noteq> s) edges))) (a, b) of Some v \<Rightarrow> Some v
      | None \<Rightarrow> (case map_of (rev (map (\<lambda>n. ((n @ ''_2'', n @ ''_3''), (0, ''CL-DCL''))) cns)) (a, b)
                 of Some v \<Rightarrow> Some v
        | None \<Rightarrow> (case map_of (rev (map (\<lambda>n. ((n, n @ ''_2''),
                   (if caps_get caps (split_head (n @ ''_2'')) 1 = 0 then 0
                    else om * fs / caps_get caps (split_head (n @ ''_2'')) 1, ''UCL-CL''))) cns)) (a, b)
                   of Some v \<Rightarrow> Some v
          | None \<Rightarrow> map_of (rev (map (\<lambda>(u, v, l). ((u, v),
                   (if bandwidth l = 0 then 0 else forward_weight fs l, ''C-UCL'')))
          (filter (\<lambda>(u, v, l). v \<noteq> d) edges))) (a, b))))"
  unfolding built_graph_def edge_attr_built keyed_weighted_expanded [OF caps ex]
  by (rule map_of_rev_append4)

lemma lookup_dcl:
  "map_of (rev (map (\<lambda>(u, v, l). ((u @ ''_3'', v @ ''_3''), F l))
          (filter (\<lambda>(u, v, l). u \<noteq> s \<and> v \<noteq> s) edges))) (x @ ''_3'', y @ ''_3'')
     = (if x \<noteq> s \<and> y \<noteq> s then map_option F (map_of (rev (keyed edges)) (x, y)) else None)"
proof -
  have "inj (\<lambda>(u :: node, v :: node). (u @ ''_3'', v @ ''_3''))"
    by (auto simp: inj_on_def)
  from map_of_rev_map_filter [OF this, of F "\<lambda>(u, v). u \<noteq> s \<and> v \<noteq> s" edges "(x, y)"]
  show ?thesis by simp
qed

lemma lookup_ucl:
  "map_of (rev (map (\<lambda>(u, v, l). ((u, v), F l))
          (filter (\<lambda>(u, v, l). v \<noteq> d) edges))) (x, y)
     = (if y \<noteq> d then map_option F (map_of (rev (keyed edges)) (x, y)) else None)"
proof -
  have "inj (\<lambda>k :: node \<times> node. k)" by simp
  from map_of_rev_map_filter [OF this, of F "\<lambda>(u, v). v \<noteq> d" edges "(x, y)"]
  show ?thesis by simp
qed

lemma edge_built_dcl:
  assumes caps: "\<forall>n \<in> set cns. map_of caps n \<noteq> None"
    and ex: "expand_network nodes edges cns caps s d = Inr (V, E)"
    and e: "edge_attr (original_graph nodes edges) x y = Some l"
    and xy: "x \<noteq> s" "y \<noteq> s" and bw: "bandwidth l \<noteq> 0"
  shows "edge_attr (built_graph fs g om caps E) (x @ ''_3'') (y @ ''_3'')
           = Some (return_weight g fs l, ''C-DCL'')"
  unfolding edge_attr_built_graph [OF caps ex] lookup_dcl
  using e xy bw by (simp add: edge_attr_original_keyed)

lemma edge_built_link:
  assumes caps: "\<forall>n \<in> set cns. map_of caps n \<noteq> None"
    and ex: "expand_network nodes edges cns caps s d = Inr (V, E)"
    and c: "c \<in> set cns"
  shows "edge_attr (built_graph fs g om caps E) (c @ ''_2'') (c @ ''_3'') = Some (0, ''CL-DCL'')"
proof -
  have 1: "map_of (rev (map (\<lambda>(u, v, l). ((u @ ''_3'', v @ ''_3''),
                   (if bandwidth l = 0 then 0 else return_weight g fs l, ''C-DCL'')))
          (filter (\<lambda>(u, v, l). u \<noteq> s \<and> v \<noteq> s) edges))) (c @ ''_2'', c @ ''_3'') = None"
    by (rule map_of_rev_None) auto
  have 2: "map_of (rev (map (\<lambda>n. ((n @ ''_2'', n @ ''_3''), (0::real, ''CL-DCL''))) cns))
             (c @ ''_2'', c @ ''_3'') = Some (0, ''CL-DCL'')"
    by (rule map_of_const) (use c in \<open>auto simp: image_iff\<close>)
  show ?thesis unfolding edge_attr_built_graph [OF caps ex] 1 2 by simp
qed

lemma edge_built_enter:
  assumes caps: "\<forall>n \<in> set cns. map_of caps n \<noteq> None"
    and ex: "expand_network nodes edges cns caps s d = Inr (V, E)"
    and c: "c \<in> set cns"
  shows "edge_attr (built_graph fs g om caps E) c (c @ ''_2'')
           = Some (if caps_get caps (split_head (c @ ''_2'')) 1 = 0 then 0
                   else om * fs / caps_get caps (split_head (c @ ''_2'')) 1, ''UCL-CL'')"
proof -
  have 1: "map_of (rev (map (\<lambda>(u, v, l). ((u @ ''_3'', v @ ''_3''),
                   (if bandwidth l = 0 then 0 else return_weight g fs l, ''C-DCL'')))
          (filter (\<lambda>(u, v, l). u \<noteq> s \<and> v \<noteq> s) edges))) (c, c @ ''_2'') = None"
    by (rule map_of_rev_None) auto
  have 2: "map_of (rev (map (\<lambda>n. ((n @ ''_2'', n @ ''_3''), (0::real, ''CL-DCL''))) cns))
             (c, c @ ''_2'') = None"
    by (rule map_of_rev_None) auto
  have 3: "map_of (rev (map (\<lambda>n. ((n, n @ ''_2''),
                   (if caps_get caps (split_head (n @ ''_2'')) 1 = 0 then 0
                    else om * fs / caps_get caps (split_head (n @ ''_2'')) 1, ''UCL-CL''))) cns))
             (c, c @ ''_2'')
           = Some (if caps_get caps (split_head (c @ ''_2'')) 1 = 0 then 0
                   else om * fs / caps_get caps (split_head (c @ ''_2'')) 1, ''UCL-CL'')"
    by (rule map_of_const) (use c in \<open>auto simp: image_iff\<close>)
  show ?thesis unfolding edge_attr_built_graph [OF caps ex] 1 2 3 by simp
qed

lemma edge_built_ucl:
  assumes caps: "\<forall>n \<in> set cns. map_of caps n \<noteq> None"
    and ex: "expand_network nodes edges cns caps s d = Inr (V, E)"
    and e: "edge_attr (original_graph nodes edges) x y = Some l"
    and y: "y \<noteq> d" and bw: "bandwidth l \<noteq> 0"
    and plain: "CHR ''_'' \<notin> set x" "CHR ''_'' \<notin> set y"
  shows "edge_attr (built_graph fs g om caps E) x y = Some (forward_weight fs l, ''C-UCL'')"
proof -
  have 1: "map_of (rev (map (\<lambda>(u, v, l). ((u @ ''_3'', v @ ''_3''),
                   (if bandwidth l = 0 then 0 else return_weight g fs l, ''C-DCL'')))
          (filter (\<lambda>(u, v, l). u \<noteq> s \<and> v \<noteq> s) edges))) (x, y) = None"
    by (rule map_of_rev_None) (use plain in auto)
  have 2: "map_of (rev (map (\<lambda>n. ((n @ ''_2'', n @ ''_3''), (0::real, ''CL-DCL''))) cns))
             (x, y) = None"
    by (rule map_of_rev_None) (use plain in auto)
  have 3: "map_of (rev (map (\<lambda>n. ((n, n @ ''_2''),
                   (if caps_get caps (split_head (n @ ''_2'')) 1 = 0 then 0
                    else om * fs / caps_get caps (split_head (n @ ''_2'')) 1, ''UCL-CL''))) cns))
             (x, y) = None"
    by (rule map_of_rev_None) (use plain in auto)
  show ?thesis unfolding edge_attr_built_graph [OF caps ex] lookup_ucl 1 2 3
    using e y bw by (simp add: edge_attr_original_keyed)
qed

section \<open>Walks of the network inside the expanded graph\<close>

lemma is_walk_snoc:
  assumes "p \<noteq> []"
  shows "is_walk G (p @ [v]) \<longleftrightarrow> is_walk G p \<and> edge_attr G (last p) v \<noteq> None"
proof -
  have p: "p = butlast p @ [last p]" using assms by simp
  have "is_walk G (butlast p @ last p # [v])
          \<longleftrightarrow> is_walk G (butlast p @ [last p]) \<and> is_walk G (last p # [v])"
    by (rule is_walk_append)
  moreover have "butlast p @ last p # [v] = p @ [v]" using assms by simp
  ultimately show ?thesis using p by simp
qed

lemma path_cost_snoc:
  assumes "p \<noteq> []"
  shows "path_cost G w (p @ [v])
           = path_cost G w p + (case edge_attr G (last p) v of None \<Rightarrow> 0 | Some a \<Rightarrow> w a)"
proof -
  have "path_cost G w (butlast p @ last p # [v])
          = path_cost G w (butlast p @ [last p]) + path_cost G w (last p # [v])"
    by (rule path_cost_append)
  moreover have "butlast p @ last p # [v] = p @ [v]" using assms by simp
  moreover have "butlast p @ [last p] = p" using assms by simp
  ultimately show ?thesis by simp
qed

lemma wf_graph_add_edges_from: "wf_graph G \<Longrightarrow> wf_graph (add_edges_from G es)"
proof (induction es arbitrary: G)
  case Nil
  then show ?case by simp
next
  case (Cons e es)
  obtain u v a where e: "e = (u, v, a)" by (cases e) auto
  have "wf_graph (add_edge G u v a)"
    using Cons.prems set_update_subset [of "(u, v)" a "gadj G"]
    unfolding wf_graph_def by (simp del: gadj_add_edge add: gadj_add_edge) blast
  then show ?case unfolding e using Cons.IH by simp
qed

lemma wf_built_graph: "wf_graph (built_graph fs g om caps E)"
  unfolding built_graph_def
  by (rule wf_graph_add_edges_from) (simp add: wf_graph_def empty_graph_def)

lemma built_graph_nonneg:
  assumes net: "valid_network nodes edges cns caps" and flow: "valid_flow cns s d fs g om"
    and ex: "expand_network nodes edges cns caps s d = Inr (V, E)"
    and k: "(k, a) \<in> set (gadj (built_graph fs g om caps E))"
  shows "0 \<le> fst a"
proof -
  from k gadj_add_edges_from_subset [of empty_graph "map (weighted fs g om caps) E"]
  obtain e where e: "e \<in> set E" and w: "fst a = edge_weight fs g om caps e"
    by (auto simp: built_graph_def empty_graph_def weighted_def split: prod.splits)
  obtain u v ed l' where "e = (u, v, ed, l')" by (cases e) auto
  with d_uv_nonneg [OF net flow ex] e w show ?thesis
    by (fastforce simp: edge_weight_def)
qed

lemma build_graph_built:
  assumes net: "valid_network nodes edges cns caps" and flow: "valid_flow cns s d fs g om"
    and ex: "expand_network nodes edges cns caps s d = Inr (V, E)"
  shows "build_graph fs g om caps E empty_graph = Inr (built_graph fs g om caps E)"
proof -
  have "\<forall>(u, v, ed, layer) \<in> set E. \<exists>w. d_uv fs g om caps u v layer ed = Inr w"
    using d_uv_nonneg [OF net flow ex] by blast
  then show ?thesis unfolding built_graph_def by (rule build_graph_ok)
qed

lemma embed_up:
  assumes caps: "\<forall>n \<in> set cns. map_of caps n \<noteq> None"
    and ex: "expand_network nodes edges cns caps s d = Inr (V, E)"
    and bw: "\<forall>(k, a) \<in> set (gadj (original_graph nodes edges)). bandwidth a \<noteq> 0"
  shows "is_walk (original_graph nodes edges) p \<Longrightarrow> \<forall>n \<in> set p. CHR ''_'' \<notin> set n \<Longrightarrow>
         d \<notin> set (tl p) \<Longrightarrow>
         is_walk (built_graph fs g om caps E) p
         \<and> path_cost (built_graph fs g om caps E) fst p
             = path_cost (original_graph nodes edges) (forward_weight fs) p"
proof (induction p rule: induct_list012)
  case 1
  then show ?case by simp
next
  case (2 x)
  then show ?case by simp
next
  case (3 u v rest)
  from "3.prems"(1) obtain l where l: "edge_attr (original_graph nodes edges) u v = Some l"
    and w: "is_walk (original_graph nodes edges) (v # rest)" by auto
  have "bandwidth l \<noteq> 0" using bw edge_attr_in_gadj [OF l] by fastforce
  then have e: "edge_attr (built_graph fs g om caps E) u v = Some (forward_weight fs l, ''C-UCL'')"
    using edge_built_ucl [OF caps ex l, of fs g om] "3.prems"(2,3) by auto
  have "is_walk (built_graph fs g om caps E) (v # rest)
         \<and> path_cost (built_graph fs g om caps E) fst (v # rest)
             = path_cost (original_graph nodes edges) (forward_weight fs) (v # rest)"
    using "3.IH"(2) w "3.prems"(2,3) by simp
  then show ?case using e l by simp
qed

lemma embed_down:
  assumes caps: "\<forall>n \<in> set cns. map_of caps n \<noteq> None"
    and ex: "expand_network nodes edges cns caps s d = Inr (V, E)"
    and bw: "\<forall>(k, a) \<in> set (gadj (original_graph nodes edges)). bandwidth a \<noteq> 0"
  shows "is_walk (original_graph nodes edges) p \<Longrightarrow> s \<notin> set p \<Longrightarrow>
         is_walk (built_graph fs g om caps E) (map (\<lambda>n. n @ ''_3'') p)
         \<and> path_cost (built_graph fs g om caps E) fst (map (\<lambda>n. n @ ''_3'') p)
             = path_cost (original_graph nodes edges) (return_weight g fs) p"
proof (induction p rule: induct_list012)
  case 1
  then show ?case by simp
next
  case (2 x)
  then show ?case by simp
next
  case (3 u v rest)
  from "3.prems"(1) obtain l where l: "edge_attr (original_graph nodes edges) u v = Some l"
    and w: "is_walk (original_graph nodes edges) (v # rest)" by auto
  have "bandwidth l \<noteq> 0" using bw edge_attr_in_gadj [OF l] by fastforce
  then have e: "edge_attr (built_graph fs g om caps E) (u @ ''_3'') (v @ ''_3'')
                  = Some (return_weight g fs l, ''C-DCL'')"
    using edge_built_dcl [OF caps ex l, of fs g om] "3.prems"(2) by auto
  have "is_walk (built_graph fs g om caps E) (map (\<lambda>n. n @ ''_3'') (v # rest))
         \<and> path_cost (built_graph fs g om caps E) fst (map (\<lambda>n. n @ ''_3'') (v # rest))
             = path_cost (original_graph nodes edges) (return_weight g fs) (v # rest)"
    using "3.IH"(2) w "3.prems"(2) by simp
  then show ?case using e l by simp
qed

lemma cpeg_le_split:
  assumes net: "valid_network nodes edges cns caps" and flow: "valid_flow cns s d fs g om"
    and plain: "plain_names nodes"
    and c: "c \<in> set cns" and cap: "map_of caps c = Some cap"
    and p1: "is_walk (original_graph nodes edges) p1" "p1 \<noteq> []" "hd p1 = s" "last p1 = c"
      "set p1 \<subseteq> set nodes" "d \<notin> set p1"
    and p2: "is_walk (original_graph nodes edges) p2" "p2 \<noteq> []" "hd p2 = c" "last p2 = d"
      "s \<notin> set p2"
  shows "\<exists>q t. cpeg_algorithm nodes edges cns caps s d fs g om = Inr (q, t)
           \<and> t \<le> path_cost (original_graph nodes edges) (forward_weight fs) p1
                  + path_cost (original_graph nodes edges) (return_weight g fs) p2
                  + om * fs / cap"
proof -
  let ?G = "original_graph nodes edges"
  have caps: "\<forall>n \<in> set cns. map_of caps n \<noteq> None"
    using net valid_network_caps by blast
  obtain V E where ex: "expand_network nodes edges cns caps s d = Inr (V, E)"
    using expand_network_ok [OF caps] by blast
  define X where "X = built_graph fs g om caps E"
  have build: "build_graph fs g om caps E empty_graph = Inr X"
    unfolding X_def by (rule build_graph_built [OF net flow ex])
  have wf: "wf_graph X" unfolding X_def by (rule wf_built_graph)
  have nonneg: "\<And>k a. (k, a) \<in> set (gadj X) \<Longrightarrow> 0 \<le> fst a"
    unfolding X_def using built_graph_nonneg [OF net flow ex] by blast
  have bw: "\<forall>(k, a) \<in> set (gadj ?G). bandwidth a \<noteq> 0"
    using original_graph_links [OF net] by (fastforce simp: valid_link_def)
  have pl: "\<And>n. n \<in> set nodes \<Longrightarrow> CHR ''_'' \<notin> set n"
    using plain by (simp add: plain_names_def list_all_iff)
  have cn: "c \<in> set nodes" using net c by (auto simp: valid_network_def list_all_iff)
  have cpos: "0 < cap"
    using net map_of_SomeD [OF cap] by (auto simp: valid_network_def list_all_iff)
  \<comment> \<open>the upstream part\<close>
  have up: "is_walk X p1" "path_cost X fst p1 = path_cost ?G (forward_weight fs) p1"
    using embed_up [OF caps ex bw p1(1), where fs=fs and g=g and om=om] p1(5,6) pl
    unfolding X_def by (auto dest: list.set_sel(2) [OF p1(2)])
  \<comment> \<open>the downstream part\<close>
  define M where "M = map (\<lambda>n. n @ ''_3'') p2"
  have down: "is_walk X M" "path_cost X fst M = path_cost ?G (return_weight g fs) p2"
    using embed_down [OF caps ex bw p2(1) p2(5), where fs=fs and g=g and om=om] unfolding X_def M_def by auto
  have M: "M \<noteq> []" "hd M = c @ ''_3''" "last M = d @ ''_3''"
    using p2(2,3,4) unfolding M_def by (auto simp: hd_map last_map)
  \<comment> \<open>the two edges through the compute layer\<close>
  have "split_head (c @ ''_2'') = c" using pl [OF cn] split_head_suffix [of c "''2''"] by simp
  then have "caps_get caps (split_head (c @ ''_2'')) 1 = cap"
    using cap by (simp add: caps_get_def)
  then have enter: "edge_attr X c (c @ ''_2'') = Some (om * fs / cap, ''UCL-CL'')"
    unfolding X_def using edge_built_enter [OF caps ex c, where fs=fs and g=g and om=om] cpos by simp
  have link: "edge_attr X (c @ ''_2'') (c @ ''_3'') = Some (0, ''CL-DCL'')"
    unfolding X_def by (rule edge_built_link [OF caps ex c])
  \<comment> \<open>the walk through the expanded graph\<close>
  define W where "W = (p1 @ [c @ ''_2'']) @ M"
  have w1: "is_walk X (p1 @ [c @ ''_2''])"
    using is_walk_snoc [OF p1(2), of X "c @ ''_2''"] up(1) enter p1(4) by simp
  have c1: "path_cost X fst (p1 @ [c @ ''_2'']) = path_cost X fst p1 + om * fs / cap"
    using path_cost_snoc [OF p1(2), of X fst "c @ ''_2''"] enter p1(4) by simp
  obtain M' where M': "M = (c @ ''_3'') # M'" using M(1,2) by (cases M) auto
  have w2: "is_walk X ((c @ ''_2'') # M)"
    using down(1) link M' by simp
  have c2: "path_cost X fst ((c @ ''_2'') # M) = path_cost X fst M"
    using link M' by simp
  have Wform: "W = p1 @ (c @ ''_2'') # M" unfolding W_def by simp
  have walkW: "is_walk X W"
    unfolding Wform using is_walk_append [of X p1 "c @ ''_2''" M] w1 w2 by simp
  have costW: "path_cost X fst W
      = path_cost ?G (forward_weight fs) p1 + path_cost ?G (return_weight g fs) p2 + om * fs / cap"
    unfolding Wform using path_cost_append [of X fst p1 "c @ ''_2''" M] c1 c2 up(2) down(2) by simp
  have W: "W \<noteq> []" "hd W = s" "last W = d @ ''_3''"
    using p1(2,3) M unfolding Wform by auto
  have "2 \<le> length W" using p1(2) unfolding Wform by (cases p1) auto
  then have "set W \<subseteq> set (gnodes X)"
    using is_walk_nodes [OF walkW] wf unfolding wf_graph_def by fastforce
  then have sX: "s \<in> set (gnodes X)" using W(1,2) hd_in_set by fastforce
  from dijkstra_path_exists [OF wf sX walkW W, of fst] obtain q where
    q: "dijkstra_path X s (d @ ''_3'') fst = Inr q" by blast
  have "path_cost X fst q \<le> path_cost X fst W"
    by (rule dijkstra_path_optimal [OF wf nonneg q walkW W])
  moreover have "path_sum X (\<lambda>a. Inr (fst a)) q = Inr (path_cost X fst q)"
    using dijkstra_path_sound [OF q] by (intro path_sum_plain) simp
  then have "cpeg_algorithm nodes edges cns caps s d fs g om = Inr (q, path_cost X fst q)"
    unfolding cpeg_algorithm_def by (simp add: ex build q)
  ultimately show ?thesis using costW by auto
qed

section \<open>CPEG against the greedy strategies\<close>

lemma foldl_max_mem:
  "foldl (\<lambda>best y. if key best < key y then y else best) x xs \<in> set (x # xs)"
proof (induction xs arbitrary: x)
  case Nil
  then show ?case by simp
next
  case (Cons y ys)
  show ?case using Cons.IH [of "if key x < key y then y else x"] by (auto split: if_splits)
qed

lemma py_max_mem: "py_max key xs = Inr x \<Longrightarrow> x \<in> set xs"
  using foldl_max_mem [of key] by (cases xs) auto

lemma compute_delay_Inr:
  "compute_delay om fs caps c = Inr cd \<Longrightarrow> \<exists>cap. map_of caps c = Some cap \<and> cap \<noteq> 0 \<and> cd = om * fs / cap"
  by (auto simp: compute_delay_def caps_index_def py_div_def err_bind_Inr_iff
      split: option.splits if_splits)

lemma original_graph_nodes:
  assumes "valid_network nodes edges cns caps"
  shows "set (gnodes (original_graph nodes edges)) = set nodes"
  using assms unfolding gnodes_original_graph
  by (fastforce simp: valid_network_def list_all_iff)

lemma valid_compute_nodes_by_model:
  "valid_compute_nodes_by shortest_path G s d cns = valid_compute_nodes G s d cns"
  by (induction cns) (simp_all split: sum.splits)

lemma find_closest_compute_node_by_model:
  "find_closest_compute_node_by shortest_path G s d cns caps fs om g
     = find_closest_compute_node G s d cns caps fs om g"
  unfolding find_closest_compute_node_by_def find_closest_compute_node_def
    valid_compute_nodes_by_model ..

lemma find_max_capacity_compute_node_by_model:
  "find_max_capacity_compute_node_by shortest_path_dividing G s d cns caps fs om g
     = find_max_capacity_compute_node G s d cns caps fs om g"
  unfolding find_max_capacity_compute_node_by_def find_max_capacity_compute_node_def
    mpcn_try_by_def mpcn_try_def ..

lemma sound_search_shortest_path: "sound_search shortest_path"
  unfolding sound_search_def using shortest_path_sound by blast

lemma sound_search_shortest_path_dividing: "sound_search shortest_path_dividing"
  unfolding sound_search_def using shortest_path_dividing_sound by blast

lemma sound_searchD:
  assumes "sound_search search" and "search G s t w = Inr p"
  shows "p \<noteq> []" "hd p = s" "last p = t" "is_walk G p"
  using assms unfolding sound_search_def by blast+

lemma valid_compute_nodes_by_sound:
  "valid_compute_nodes_by search G s d cns = Inr valid \<Longrightarrow> (c, dly, p1, p2) \<in> set valid \<Longrightarrow>
   c \<in> set cns \<and> search G s c propagation_delay = Inr p1
   \<and> search G c d propagation_delay = Inr p2"
proof (induction cns arbitrary: valid)
  case Nil
  then show ?case by simp
next
  case (Cons n cns)
  show ?case
  proof (cases "\<exists>q1 q2. search G s n propagation_delay = Inr q1
                  \<and> search G n d propagation_delay = Inr q2")
    case True
    then obtain q1 q2 where q: "search G s n propagation_delay = Inr q1"
      "search G n d propagation_delay = Inr q2" by blast
    from Cons.prems(1) q obtain dl more where
      more: "valid_compute_nodes_by search G s d cns = Inr more"
      and v: "valid = (n, dl, q1, q2) # more"
      by (auto simp: err_bind_Inr_iff)
    from Cons.prems(2) v consider "(c, dly, p1, p2) = (n, dl, q1, q2)" | "(c, dly, p1, p2) \<in> set more"
      by auto
    then show ?thesis
    proof cases
      case 1
      then show ?thesis using q by simp
    next
      case 2
      then show ?thesis using Cons.IH [OF more] by simp
    qed
  next
    case False
    then have "valid_compute_nodes_by search G s d cns = Inr valid"
      using Cons.prems(1) by (auto split: sum.splits if_splits)
    then show ?thesis using Cons.IH Cons.prems(2) by simp
  qed
qed

lemma ccn_by_result:
  assumes "find_closest_compute_node_by search G s d cns caps fs om g = Inr (Some c, Fin t, path)"
  shows "\<exists>p1 p2 fwd ret cd.
              c \<in> set cns \<and> search G s c propagation_delay = Inr p1
              \<and> search G c d propagation_delay = Inr p2
              \<and> delay_to_compute_node G fs p1 = Inr fwd
              \<and> path_sum G (return_term g fs) p2 = Inr ret
              \<and> compute_delay om fs caps c = Inr cd
              \<and> t = fwd + ret + cd \<and> path = butlast p1 @ p2"
proof -
  from assms obtain valid where v: "valid_compute_nodes_by search G s d cns = Inr valid"
    and r: "(case sort_key (\<lambda>x. fst (snd x)) valid of
         [] \<Rightarrow> Inr no_path_result
       | (closest_node, d, path_to_compute, path_compute_to_destination) # others \<Rightarrow>
           err_bind (delay_to_compute_node G fs path_to_compute)
             (\<lambda>forward_delay.
           err_bind (path_sum G (return_term g fs) path_compute_to_destination)
             (\<lambda>delay_compute_to_destination.
           err_bind (compute_delay om fs caps closest_node)
             (\<lambda>cd.
           let total_delay = forward_delay + delay_compute_to_destination + cd;
               full_path = butlast path_to_compute @ path_compute_to_destination
           in Inr (Some closest_node, Fin total_delay, full_path))))) = Inr (Some c, Fin t, path)"
    unfolding find_closest_compute_node_by_def by (auto simp: err_bind_Inr_iff)
  show ?thesis
  proof (cases "sort_key (\<lambda>x. fst (snd x)) valid")
    case Nil
    then show ?thesis using r by (simp add: no_path_result_def)
  next
    case (Cons x rest)
    obtain c' dly p1 p2 where x: "x = (c', dly, p1, p2)" by (cases x) auto
    from r Cons x obtain fwd ret cd where
      res: "delay_to_compute_node G fs p1 = Inr fwd" "path_sum G (return_term g fs) p2 = Inr ret"
      "compute_delay om fs caps c' = Inr cd" "c = c'" "t = fwd + ret + cd"
      "path = butlast p1 @ p2"
      by (auto simp: err_bind_Inr_iff Let_def)
    have "(c', dly, p1, p2) \<in> set (sort_key (\<lambda>x. fst (snd x)) valid)" unfolding Cons x by simp
    then have "(c', dly, p1, p2) \<in> set valid" by simp
    from valid_compute_nodes_by_sound [OF v this] res show ?thesis by blast
  qed
qed

lemma mpcn_by_result:
  assumes "find_max_capacity_compute_node_by search G s d cns caps fs om g
             = Inr (Some c, Fin t, path)"
  shows "\<exists>cap p1 p2 fwd ret cd.
              py_max snd caps = Inr (c, cap)
              \<and> search G s c (forward_weight fs) = Inr p1
              \<and> search G c d (return_weight g fs) = Inr p2
              \<and> path_sum G (forward_term fs) p1 = Inr fwd
              \<and> path_sum G (return_term g fs) p2 = Inr ret
              \<and> compute_delay om fs caps c = Inr cd
              \<and> t = fwd + ret + cd \<and> path = butlast p1 @ p2"
proof -
  from assms obtain item where item: "py_max snd caps = Inr item"
    and r: "(let max_capacity_node = fst item;
           r = mpcn_try_by search G s d caps fs om g max_capacity_node
       in if r = Inl NetworkXNoPath then Inr no_path_result else r) = Inr (Some c, Fin t, path)"
    unfolding find_max_capacity_compute_node_by_def by (auto simp: err_bind_Inr_iff)
  obtain c' cap where ic: "item = (c', cap)" by (cases item) auto
  show ?thesis
  proof (cases "mpcn_try_by search G s d caps fs om g c' = Inl NetworkXNoPath")
    case True
    then show ?thesis using r ic by (simp add: Let_def no_path_result_def)
  next
    case False
    then have "mpcn_try_by search G s d caps fs om g c' = Inr (Some c, Fin t, path)"
      using r ic by (simp add: Let_def)
    then show ?thesis using item ic
      unfolding mpcn_try_by_def by (auto simp: err_bind_Inr_iff Let_def)
  qed
qed

lemma walk_inside:
  assumes net: "valid_network nodes edges cns caps"
    and w: "is_walk (original_graph nodes edges) p" "p \<noteq> []" "last p \<in> set nodes"
  shows "set p \<subseteq> set nodes"
proof (cases "2 \<le> length p")
  case True
  have "set p \<subseteq> set (gnodes (original_graph nodes edges))"
    by (rule is_walk_nodes [OF w(1) True]) (rule wf_original_graph)
  then show ?thesis using original_graph_nodes [OF net] by simp
next
  case False
  then have "length p < 2" by simp
  then obtain x where "p = [x]" using w(2) by (cases p) (auto simp: less_Suc_eq numeral_2_eq_2)
  then show ?thesis using w(3) by simp
qed

lemma greedy_split:
  assumes net: "valid_network nodes edges cns caps"
    and search: "sound_search search"
    and greedy: "find_closest_compute_node_by search (original_graph nodes edges) s d cns caps
                   fs om g = Inr (Some c, Fin t, p)
                 \<or> find_max_capacity_compute_node_by search (original_graph nodes edges) s d cns
                     caps fs om g = Inr (Some c, Fin t, p)"
  shows "\<exists>p1 p2 cap. c \<in> set cns \<and> map_of caps c = Some cap \<and> p = butlast p1 @ p2
      \<and> is_walk (original_graph nodes edges) p1 \<and> p1 \<noteq> [] \<and> hd p1 = s \<and> last p1 = c
      \<and> set p1 \<subseteq> set nodes
      \<and> is_walk (original_graph nodes edges) p2 \<and> p2 \<noteq> [] \<and> hd p2 = c \<and> last p2 = d
      \<and> t = path_cost (original_graph nodes edges) (forward_weight fs) p1
           + path_cost (original_graph nodes edges) (return_weight g fs) p2 + om * fs / cap"
proof -
  let ?G = "original_graph nodes edges"
  have bw: "\<forall>(k, a) \<in> set (gadj ?G). bandwidth a \<noteq> 0"
    using original_graph_links [OF net] by (fastforce simp: valid_link_def)
  have fin: "\<exists>p1 p2 cap. c \<in> set cns \<and> map_of caps c = Some cap \<and> p = butlast p1 @ p2
      \<and> is_walk ?G p1 \<and> p1 \<noteq> [] \<and> hd p1 = s \<and> last p1 = c \<and> set p1 \<subseteq> set nodes
      \<and> is_walk ?G p2 \<and> p2 \<noteq> [] \<and> hd p2 = c \<and> last p2 = d
      \<and> t = path_cost ?G (forward_weight fs) p1 + path_cost ?G (return_weight g fs) p2
            + om * fs / cap"
    if c: "c \<in> set cns"
      and sp: "search ?G s c w1 = Inr p1" "search ?G c d w2 = Inr p2"
      and fwd: "fwd = path_cost ?G (forward_weight fs) p1"
      and ret: "path_sum ?G (return_term g fs) p2 = Inr ret"
      and cd: "compute_delay om fs caps c = Inr cd"
      and t: "t = fwd + ret + cd" and p: "p = butlast p1 @ p2"
    for p1 p2 w1 w2 fwd ret cd
  proof -
    have w1: "p1 \<noteq> []" "hd p1 = s" "last p1 = c" "is_walk ?G p1"
      using sound_searchD [OF search sp(1)] by auto
    have w2: "p2 \<noteq> []" "hd p2 = c" "last p2 = d" "is_walk ?G p2"
      using sound_searchD [OF search sp(2)] by auto
    have "c \<in> set nodes" using net c by (auto simp: valid_network_def list_all_iff)
    then have n1: "set p1 \<subseteq> set nodes"
      using walk_inside [OF net w1(4) w1(1)] w1(3) by simp
    from compute_delay_Inr [OF cd] obtain cap where cap: "map_of caps c = Some cap"
      "cd = om * fs / cap" by blast
    have "ret = path_cost ?G (return_weight g fs) p2"
      using ret path_sum_return [OF bw w2(4), of g fs] by simp
    then show ?thesis using c cap p w1 w2 n1 t fwd by blast
  qed
  from greedy show ?thesis
  proof
    assume "find_closest_compute_node_by search ?G s d cns caps fs om g = Inr (Some c, Fin t, p)"
    from ccn_by_result [OF this] obtain p1 p2 fwd ret cd where
      c: "c \<in> set cns" and sp: "search ?G s c propagation_delay = Inr p1"
      "search ?G c d propagation_delay = Inr p2"
      and fwd: "delay_to_compute_node ?G fs p1 = Inr fwd"
      and ret: "path_sum ?G (return_term g fs) p2 = Inr ret"
      and cd: "compute_delay om fs caps c = Inr cd"
      and t: "t = fwd + ret + cd" and p: "p = butlast p1 @ p2"
      by blast
    have "is_walk ?G p1" using sound_searchD [OF search sp(1)] by simp
    then have "fwd = path_cost ?G (forward_weight fs) p1"
      using fwd delay_to_compute_node_total [OF bw, of fs p1] by simp
    from fin [OF c sp this ret cd t p] show ?thesis .
  next
    assume "find_max_capacity_compute_node_by search ?G s d cns caps fs om g
              = Inr (Some c, Fin t, p)"
    from mpcn_by_result [OF this] obtain cap0 p1 p2 fwd ret cd where
      mx: "py_max snd caps = Inr (c, cap0)"
      and sp: "search ?G s c (forward_weight fs) = Inr p1"
        "search ?G c d (return_weight g fs) = Inr p2"
      and fwd: "path_sum ?G (forward_term fs) p1 = Inr fwd"
      and ret: "path_sum ?G (return_term g fs) p2 = Inr ret"
      and cd: "compute_delay om fs caps c = Inr cd"
      and t: "t = fwd + ret + cd" and p: "p = butlast p1 @ p2"
      by blast
    have "(c, cap0) \<in> set caps" using py_max_mem [OF mx] .
    then have c: "c \<in> set cns" using net by (auto simp: valid_network_def list_all_iff)
    have "is_walk ?G p1" using sound_searchD [OF search sp(1)] by simp
    then have "fwd = path_cost ?G (forward_weight fs) p1"
      using fwd path_sum_forward [OF bw, of p1 fs] by simp
    from fin [OF c sp this ret cd t p] show ?thesis .
  qed
qed

text \<open>
  C1 (as amended). In exact arithmetic, on a valid network and flow request with node
  names free of underscores, and for every search routine that returns walks from its
  source to its target, whichever of several shortest paths it picks: whenever CCN or
  MPCN returns a compute node and a path that visits the destination only as its last
  node and the source only as its first node, the CPEG search succeeds and its total
  delay is at most the total delay of that greedy strategy. The number of compute nodes
  plays no role. The total that CPEG reports is the minimum weight of a walk of the
  expanded graph (\<open>dijkstra_path_optimal\<close>), so it does not depend on the choice among
  shortest paths either. The delays compared are the exact sums; the scripts add doubles
  in different orders, and two sums that are equal here can differ there in the last
  digits.
\<close>

theorem cpeg_le_greedy:
  assumes net: "valid_network nodes edges cns caps" and flow: "valid_flow cns s d fs g om"
    and plain: "plain_names nodes"
    and search: "sound_search search"
    and greedy: "find_closest_compute_node_by search (original_graph nodes edges) s d cns caps
                   fs om g = Inr (Some c, Fin t, p)
                 \<or> find_max_capacity_compute_node_by search (original_graph nodes edges) s d cns
                     caps fs om g = Inr (Some c, Fin t, p)"
    and once: "d \<notin> set (butlast p)" "s \<notin> set (tl p)"
  shows "\<exists>q t'. cpeg_algorithm nodes edges cns caps s d fs g om = Inr (q, t') \<and> t' \<le> t"
proof -
  let ?G = "original_graph nodes edges"
  from greedy_split [OF net search greedy] obtain p1 p2 cap where
    c: "c \<in> set cns" and cap: "map_of caps c = Some cap" and p: "p = butlast p1 @ p2"
    and p1: "is_walk ?G p1" "p1 \<noteq> []" "hd p1 = s" "last p1 = c" "set p1 \<subseteq> set nodes"
    and p2: "is_walk ?G p2" "p2 \<noteq> []" "hd p2 = c" "last p2 = d"
    and t: "t = path_cost ?G (forward_weight fs) p1 + path_cost ?G (return_weight g fs) p2
                + om * fs / cap"
    by blast
  have cs: "c \<noteq> s" and cd: "c \<noteq> d" using flow c by (auto simp: valid_flow_def)
  have "butlast p = butlast p1 @ butlast p2" unfolding p using p2(2) by (simp add: butlast_append)
  then have "d \<notin> set (butlast p1)" using once(1) by simp
  moreover have "set p1 = set (butlast p1) \<union> {c}"
    using p1(2,4) by (metis Un_insert_right append_butlast_last_id list.simps(15) set_append
        sup_bot.right_neutral empty_set)
  ultimately have d1: "d \<notin> set p1" using cd by auto
  obtain r where r: "p1 = s # r" using p1(2,3) by (cases p1) auto
  then have "r \<noteq> []" using p1(4) cs by auto
  then have "tl p = butlast r @ p2" unfolding p r by simp
  then have s2: "s \<notin> set p2" using once(2) by simp
  from cpeg_le_split [OF net flow plain c cap p1 d1 p2 s2] show ?thesis unfolding t by blast
qed

theorem cpeg_le_greedy_witness:
  "\<exists>q t'. cpeg_algorithm [''A'', ''B'', ''C'', ''D'']
        [(''A'', ''B'', \<lparr>bandwidth = 1000, propagation_delay = 1, processing_delay = 1 / 10,
            queuing_delay = 0, jitter = 0\<rparr>),
         (''B'', ''D'', \<lparr>bandwidth = 1000, propagation_delay = 1, processing_delay = 1 / 10,
            queuing_delay = 0, jitter = 0\<rparr>),
         (''A'', ''C'', \<lparr>bandwidth = 1000, propagation_delay = 1, processing_delay = 1 / 10,
            queuing_delay = 0, jitter = 0\<rparr>),
         (''C'', ''D'', \<lparr>bandwidth = 1000, propagation_delay = 1, processing_delay = 1 / 10,
            queuing_delay = 0, jitter = 0\<rparr>)]
        [''B'', ''C''] [(''B'', 10000), (''C'', 50000)] ''A'' ''D'' 100 2 10 = Inr (q, t')
     \<and> t' \<le> 13 / 5"
proof -
  have net: "valid_network [''A'', ''B'', ''C'', ''D'']
        [(''A'', ''B'', \<lparr>bandwidth = 1000, propagation_delay = 1, processing_delay = 1 / 10,
            queuing_delay = 0, jitter = 0\<rparr>),
         (''B'', ''D'', \<lparr>bandwidth = 1000, propagation_delay = 1, processing_delay = 1 / 10,
            queuing_delay = 0, jitter = 0\<rparr>),
         (''A'', ''C'', \<lparr>bandwidth = 1000, propagation_delay = 1, processing_delay = 1 / 10,
            queuing_delay = 0, jitter = 0\<rparr>),
         (''C'', ''D'', \<lparr>bandwidth = 1000, propagation_delay = 1, processing_delay = 1 / 10,
            queuing_delay = 0, jitter = 0\<rparr>)]
        [''B'', ''C''] [(''B'', 10000), (''C'', 50000)]"
    by (simp add: valid_network_def valid_link_def)
  have flow: "valid_flow [''B'', ''C''] ''A'' ''D'' 100 2 10"
    by (simp add: valid_flow_def)
  have plain: "plain_names [''A'', ''B'', ''C'', ''D'']"
    by (simp add: plain_names_def)
  have h: "find_closest_compute_node_by shortest_path
      (original_graph [''A'', ''B'', ''C'', ''D'']
        [(''A'', ''B'', \<lparr>bandwidth = 1000, propagation_delay = 1, processing_delay = 1 / 10,
            queuing_delay = 0, jitter = 0\<rparr>),
         (''B'', ''D'', \<lparr>bandwidth = 1000, propagation_delay = 1, processing_delay = 1 / 10,
            queuing_delay = 0, jitter = 0\<rparr>),
         (''A'', ''C'', \<lparr>bandwidth = 1000, propagation_delay = 1, processing_delay = 1 / 10,
            queuing_delay = 0, jitter = 0\<rparr>),
         (''C'', ''D'', \<lparr>bandwidth = 1000, propagation_delay = 1, processing_delay = 1 / 10,
            queuing_delay = 0, jitter = 0\<rparr>)])
      ''A'' ''D'' [''B'', ''C''] [(''B'', 10000), (''C'', 50000)] 100 10 2
    = Inr (Some ''B'', Fin (13 / 5), [''A'', ''B'', ''D''])"
    by code_simp
  from cpeg_le_greedy [OF net flow plain sound_search_shortest_path disjI1 [OF h]]
  show ?thesis by simp
qed

text \<open>
  C1 as stated fails. The expansion drops every edge into the destination from the
  upstream layer and every edge at the source from the downstream layer, so CPEG
  minimises over fewer routes than the greedy strategies search. Here both greedy
  strategies return the result through the source, \<open>C \<rightarrow> S \<rightarrow> D\<close>, for a total of
  9/2, while CPEG can only use the slow edge \<open>C \<rightarrow> D\<close> and reports 1023/10. Every
  search of the example has a single shortest path, and the gap is far above any
  rounding of the sums.
\<close>

theorem cpeg_above_greedy_counterexample:
  "cpeg_algorithm [''S'', ''C'', ''D'']
        [(''S'', ''C'', \<lparr>bandwidth = 1000, propagation_delay = 1, processing_delay = 0,
            queuing_delay = 0, jitter = 0\<rparr>),
         (''C'', ''S'', \<lparr>bandwidth = 1000, propagation_delay = 1, processing_delay = 0,
            queuing_delay = 0, jitter = 0\<rparr>),
         (''S'', ''D'', \<lparr>bandwidth = 1000, propagation_delay = 1, processing_delay = 0,
            queuing_delay = 0, jitter = 0\<rparr>),
         (''C'', ''D'', \<lparr>bandwidth = 1000, propagation_delay = 100, processing_delay = 0,
            queuing_delay = 0, jitter = 0\<rparr>)]
        [''C''] [(''C'', 1000)] ''S'' ''D'' 100 2 10
     = Inr ([''S'', ''C'', ''C_2'', ''C_3'', ''D_3''], 1023 / 10)
   \<and> find_closest_compute_node
      (original_graph [''S'', ''C'', ''D'']
        [(''S'', ''C'', \<lparr>bandwidth = 1000, propagation_delay = 1, processing_delay = 0,
            queuing_delay = 0, jitter = 0\<rparr>),
         (''C'', ''S'', \<lparr>bandwidth = 1000, propagation_delay = 1, processing_delay = 0,
            queuing_delay = 0, jitter = 0\<rparr>),
         (''S'', ''D'', \<lparr>bandwidth = 1000, propagation_delay = 1, processing_delay = 0,
            queuing_delay = 0, jitter = 0\<rparr>),
         (''C'', ''D'', \<lparr>bandwidth = 1000, propagation_delay = 100, processing_delay = 0,
            queuing_delay = 0, jitter = 0\<rparr>)])
      ''S'' ''D'' [''C''] [(''C'', 1000)] 100 10 2
     = Inr (Some ''C'', Fin (9 / 2), [''S'', ''C'', ''S'', ''D''])
   \<and> find_max_capacity_compute_node
      (original_graph [''S'', ''C'', ''D'']
        [(''S'', ''C'', \<lparr>bandwidth = 1000, propagation_delay = 1, processing_delay = 0,
            queuing_delay = 0, jitter = 0\<rparr>),
         (''C'', ''S'', \<lparr>bandwidth = 1000, propagation_delay = 1, processing_delay = 0,
            queuing_delay = 0, jitter = 0\<rparr>),
         (''S'', ''D'', \<lparr>bandwidth = 1000, propagation_delay = 1, processing_delay = 0,
            queuing_delay = 0, jitter = 0\<rparr>),
         (''C'', ''D'', \<lparr>bandwidth = 1000, propagation_delay = 100, processing_delay = 0,
            queuing_delay = 0, jitter = 0\<rparr>)])
      ''S'' ''D'' [''C''] [(''C'', 1000)] 100 10 2
     = Inr (Some ''C'', Fin (9 / 2), [''S'', ''C'', ''S'', ''D''])
   \<and> \<not> delay_le (Fin (1023 / 10)) (Fin (9 / 2))"
  by code_simp

section \<open>Node names with an underscore\<close>

text \<open>
  C2 at an input the code mishandles. The compute node \<open>a_b\<close> has capacity 5, so its
  compute-enter edge should weigh \<open>omega * flow_size / 5 = 200\<close>, the value CCN and
  MPCN compute. \<open>d_uv\<close> takes the text before the first underscore of \<open>a_b_2\<close>,
  \<open>a\<close>, as the name of the compute node, finds no capacity under it and falls back to
  1: the edge weighs 1000.
\<close>

theorem enter_weight_underscore_name:
  "err_bind (expand_network [''A'', ''a_b'', ''D'']
        [(''A'', ''a_b'', \<lparr>bandwidth = 1000, propagation_delay = 1, processing_delay = 0,
            queuing_delay = 0, jitter = 0\<rparr>),
         (''a_b'', ''D'', \<lparr>bandwidth = 1000, propagation_delay = 1, processing_delay = 0,
            queuing_delay = 0, jitter = 0\<rparr>)]
        [''a_b''] [(''a_b'', 5)] ''A'' ''D'')
     (\<lambda>(V, E). err_bind (build_graph 100 2 10 [(''a_b'', 5)] E empty_graph)
        (\<lambda>G. Inr (edge_attr G ''a_b'' ''a_b_2'')))
   = Inr (Some (1000, ''UCL-CL''))
   \<and> compute_delay 10 100 [(''a_b'', 5)] ''a_b'' = Inr 200"
  by code_simp

section \<open>Walks of the expanded graph\<close>

text \<open>
  Conversely, every edge of the expanded graph is of one of the four kinds, and a walk
  from an original node to the downstream copy of the destination consists of a walk of
  the network to a compute node, the two edges through its middle-layer copy, and a
  walk of the network from there to the destination.
\<close>

lemma suffix_not_plain: "CHR ''_'' \<in> set (x @ CHR ''_'' # r)"
  by simp

lemma built_from_plain:
  assumes caps: "\<forall>n \<in> set cns. map_of caps n \<noteq> None"
    and ex: "expand_network nodes edges cns caps s d = Inr (V, E)"
    and a: "CHR ''_'' \<notin> set a"
  shows "edge_attr (built_graph fs g om caps E) a b =
     (case map_of (rev (map (\<lambda>n. ((n, n @ ''_2''),
                   (if caps_get caps (split_head (n @ ''_2'')) 1 = 0 then 0
                    else om * fs / caps_get caps (split_head (n @ ''_2'')) 1, ''UCL-CL''))) cns)) (a, b)
                   of Some v \<Rightarrow> Some v
      | None \<Rightarrow> (if b \<noteq> d
                 then map_option (\<lambda>l. (if bandwidth l = 0 then 0 else forward_weight fs l, ''C-UCL''))
                        (edge_attr (original_graph nodes edges) a b)
                 else None))"
proof -
  have 1: "map_of (rev (map (\<lambda>(u, v, l). ((u @ ''_3'', v @ ''_3''),
                   (if bandwidth l = 0 then 0 else return_weight g fs l, ''C-DCL'')))
          (filter (\<lambda>(u, v, l). u \<noteq> s \<and> v \<noteq> s) edges))) (a, b) = None"
    by (rule map_of_rev_None) (use a in auto)
  have 2: "map_of (rev (map (\<lambda>n. ((n @ ''_2'', n @ ''_3''), (0::real, ''CL-DCL''))) cns))
             (a, b) = None"
    by (rule map_of_rev_None) (use a in auto)
  show ?thesis
    unfolding edge_attr_built_graph [OF caps ex] lookup_ucl 1 2 edge_attr_original_keyed
    by simp
qed

lemma built_plain_plain:
  assumes caps: "\<forall>n \<in> set cns. map_of caps n \<noteq> None"
    and ex: "expand_network nodes edges cns caps s d = Inr (V, E)"
    and a: "CHR ''_'' \<notin> set a" and b: "CHR ''_'' \<notin> set b"
  shows "edge_attr (built_graph fs g om caps E) a b =
     (if b \<noteq> d
      then map_option (\<lambda>l. (if bandwidth l = 0 then 0 else forward_weight fs l, ''C-UCL''))
             (edge_attr (original_graph nodes edges) a b)
      else None)"
proof -
  have 3: "map_of (rev (map (\<lambda>n. ((n, n @ ''_2''),
                   (if caps_get caps (split_head (n @ ''_2'')) 1 = 0 then 0
                    else om * fs / caps_get caps (split_head (n @ ''_2'')) 1, ''UCL-CL''))) cns))
             (a, b) = None"
    by (rule map_of_rev_None) (use b in auto)
  show ?thesis unfolding built_from_plain [OF caps ex a] 3 by simp
qed

lemma edge_original_endpoints:
  assumes "edge_attr (original_graph nodes edges) a b = Some l"
  shows "(a, b, l) \<in> set edges"
proof -
  have "map_of (rev (keyed edges)) (a, b) = Some l"
    using assms by (simp add: edge_attr_original_keyed)
  then have "((a, b), l) \<in> set (rev (keyed edges))" by (rule map_of_SomeD)
  then show ?thesis by (auto simp: keyed_def)
qed

lemma built_plain_other:
  assumes caps: "\<forall>n \<in> set cns. map_of caps n \<noteq> None"
    and ex: "expand_network nodes edges cns caps s d = Inr (V, E)"
    and ends: "\<forall>(u, v, l) \<in> set edges. CHR ''_'' \<notin> set u \<and> CHR ''_'' \<notin> set v"
    and a: "CHR ''_'' \<notin> set a" and b: "CHR ''_'' \<in> set b"
    and e: "edge_attr (built_graph fs g om caps E) a b = Some x"
  shows "a \<in> set cns \<and> b = a @ ''_2''
         \<and> x = (if caps_get caps (split_head (a @ ''_2'')) 1 = 0 then 0
                else om * fs / caps_get caps (split_head (a @ ''_2'')) 1, ''UCL-CL'')"
proof -
  have none: "edge_attr (original_graph nodes edges) a b = None"
  proof (rule ccontr)
    assume "edge_attr (original_graph nodes edges) a b \<noteq> None"
    then obtain l where "edge_attr (original_graph nodes edges) a b = Some l" by auto
    then have "(a, b, l) \<in> set edges" by (rule edge_original_endpoints)
    then show False using ends b by blast
  qed
  from e have m: "map_of (rev (map (\<lambda>n. ((n, n @ ''_2''),
                   (if caps_get caps (split_head (n @ ''_2'')) 1 = 0 then 0
                    else om * fs / caps_get caps (split_head (n @ ''_2'')) 1, ''UCL-CL''))) cns))
             (a, b) = Some x"
    unfolding built_from_plain [OF caps ex a] none by (auto split: option.splits if_splits)
  from map_of_SomeD [OF m] show ?thesis by auto
qed

lemma built_from_mid:
  assumes caps: "\<forall>n \<in> set cns. map_of caps n \<noteq> None"
    and ex: "expand_network nodes edges cns caps s d = Inr (V, E)"
    and ends: "\<forall>(u, v, l) \<in> set edges. CHR ''_'' \<notin> set u \<and> CHR ''_'' \<notin> set v"
    and cns: "\<forall>n \<in> set cns. CHR ''_'' \<notin> set n"
    and e: "edge_attr (built_graph fs g om caps E) (c @ ''_2'') b = Some x"
  shows "b = c @ ''_3'' \<and> x = (0, ''CL-DCL'')"
proof -
  have 1: "map_of (rev (map (\<lambda>(u, v, l). ((u @ ''_3'', v @ ''_3''),
                   (if bandwidth l = 0 then 0 else return_weight g fs l, ''C-DCL'')))
          (filter (\<lambda>(u, v, l). u \<noteq> s \<and> v \<noteq> s) edges))) (c @ ''_2'', b) = None"
    by (rule map_of_rev_None) auto
  have 3: "map_of (rev (map (\<lambda>n. ((n, n @ ''_2''),
                   (if caps_get caps (split_head (n @ ''_2'')) 1 = 0 then 0
                    else om * fs / caps_get caps (split_head (n @ ''_2'')) 1, ''UCL-CL''))) cns))
             (c @ ''_2'', b) = None"
    by (rule map_of_rev_None) (use cns in force)
  have 4: "map_of (rev (map (\<lambda>(u, v, l). ((u, v),
                   (if bandwidth l = 0 then 0 else forward_weight fs l, ''C-UCL'')))
          (filter (\<lambda>(u, v, l). v \<noteq> d) edges))) (c @ ''_2'', b) = None"
    by (rule map_of_rev_None) (use ends in force)
  from e have "map_of (rev (map (\<lambda>n. ((n @ ''_2'', n @ ''_3''), (0::real, ''CL-DCL''))) cns))
             (c @ ''_2'', b) = Some x"
    unfolding edge_attr_built_graph [OF caps ex] 1 3 4 by (simp split: option.splits)
  from map_of_SomeD [OF this] show ?thesis by auto
qed

lemma built_from_down:
  assumes caps: "\<forall>n \<in> set cns. map_of caps n \<noteq> None"
    and ex: "expand_network nodes edges cns caps s d = Inr (V, E)"
    and ends: "\<forall>(u, v, l) \<in> set edges. CHR ''_'' \<notin> set u \<and> CHR ''_'' \<notin> set v"
    and cns: "\<forall>n \<in> set cns. CHR ''_'' \<notin> set n"
    and e: "edge_attr (built_graph fs g om caps E) (x @ ''_3'') b = Some w"
  shows "\<exists>y l. b = y @ ''_3'' \<and> x \<noteq> s \<and> y \<noteq> s
           \<and> edge_attr (original_graph nodes edges) x y = Some l
           \<and> w = (if bandwidth l = 0 then 0 else return_weight g fs l, ''C-DCL'')"
proof -
  have 2: "map_of (rev (map (\<lambda>n. ((n @ ''_2'', n @ ''_3''), (0::real, ''CL-DCL''))) cns))
             (x @ ''_3'', b) = None"
    by (rule map_of_rev_None) auto
  have 3: "map_of (rev (map (\<lambda>n. ((n, n @ ''_2''),
                   (if caps_get caps (split_head (n @ ''_2'')) 1 = 0 then 0
                    else om * fs / caps_get caps (split_head (n @ ''_2'')) 1, ''UCL-CL''))) cns))
             (x @ ''_3'', b) = None"
    by (rule map_of_rev_None) (use cns in force)
  have 4: "map_of (rev (map (\<lambda>(u, v, l). ((u, v),
                   (if bandwidth l = 0 then 0 else forward_weight fs l, ''C-UCL'')))
          (filter (\<lambda>(u, v, l). v \<noteq> d) edges))) (x @ ''_3'', b) = None"
    by (rule map_of_rev_None) (use ends in force)
  from e have m: "map_of (rev (map (\<lambda>(u, v, l). ((u @ ''_3'', v @ ''_3''),
                   (if bandwidth l = 0 then 0 else return_weight g fs l, ''C-DCL'')))
          (filter (\<lambda>(u, v, l). u \<noteq> s \<and> v \<noteq> s) edges))) (x @ ''_3'', b) = Some w"
    unfolding edge_attr_built_graph [OF caps ex] 2 3 4 by (simp split: option.splits)
  from map_of_SomeD [OF m] obtain y where b: "b = y @ ''_3''" by auto
  from m show ?thesis unfolding b lookup_dcl
    by (auto simp: edge_attr_original_keyed split: if_splits)
qed

lemma down_walk_decomp:
  assumes caps: "\<forall>n \<in> set cns. map_of caps n \<noteq> None"
    and ex: "expand_network nodes edges cns caps s d = Inr (V, E)"
    and ends: "\<forall>(u, v, l) \<in> set edges. CHR ''_'' \<notin> set u \<and> CHR ''_'' \<notin> set v"
    and cns: "\<forall>n \<in> set cns. CHR ''_'' \<notin> set n"
    and bw: "\<forall>(k, a) \<in> set (gadj (original_graph nodes edges)). bandwidth a \<noteq> 0"
  shows "is_walk (built_graph fs g om caps E) ((x @ ''_3'') # r) \<Longrightarrow>
         \<exists>p2. (x @ ''_3'') # r = map (\<lambda>n. n @ ''_3'') p2 \<and> hd p2 = x \<and> p2 \<noteq> []
           \<and> is_walk (original_graph nodes edges) p2 \<and> (r \<noteq> [] \<longrightarrow> s \<notin> set p2)
           \<and> path_cost (built_graph fs g om caps E) fst ((x @ ''_3'') # r)
               = path_cost (original_graph nodes edges) (return_weight g fs) p2"
proof (induction r arbitrary: x)
  case Nil
  show ?case by (rule exI [of _ "[x]"]) simp
next
  case (Cons e r')
  let ?X = "built_graph fs g om caps E" and ?G = "original_graph nodes edges"
  from Cons.prems obtain w where w: "edge_attr ?X (x @ ''_3'') e = Some w"
    and rest: "is_walk ?X (e # r')" by auto
  from built_from_down [OF caps ex ends cns w] obtain y l where
    e: "e = y @ ''_3''" and xs: "x \<noteq> s" and ys: "y \<noteq> s"
    and l: "edge_attr ?G x y = Some l"
    and wv: "w = (if bandwidth l = 0 then 0 else return_weight g fs l, ''C-DCL'')"
    by blast
  have "bandwidth l \<noteq> 0" using bw edge_attr_in_gadj [OF l] by fastforce
  then have fw: "fst w = return_weight g fs l" using wv by simp
  have "is_walk ?X ((y @ ''_3'') # r')" using rest e by simp
  from Cons.IH [OF this] obtain p2 where
    p2: "(y @ ''_3'') # r' = map (\<lambda>n. n @ ''_3'') p2" "hd p2 = y" "p2 \<noteq> []" "is_walk ?G p2"
      "r' \<noteq> [] \<longrightarrow> s \<notin> set p2"
      "path_cost ?X fst ((y @ ''_3'') # r') = path_cost ?G (return_weight g fs) p2"
    by (elim exE conjE) (rule that; assumption)
  obtain rest' where p2f: "p2 = y # rest'" using p2(2,3) by (cases p2) auto
  have sp2: "s \<notin> set p2"
  proof (cases "r' = []")
    case True
    then have "length p2 = 1" using p2(1) by (metis length_map length_Cons list.size(3) One_nat_def)
    then have "p2 = [y]" using p2f by simp
    then show ?thesis using ys by simp
  next
    case False
    then show ?thesis using p2(5) by simp
  qed
  show ?case
  proof (intro exI [of _ "x # p2"] conjI)
    show "(x @ ''_3'') # e # r' = map (\<lambda>n. n @ ''_3'') (x # p2)" using p2(1) e by simp
    show "hd (x # p2) = x" by simp
    show "x # p2 \<noteq> []" by simp
    show "is_walk ?G (x # p2)" using l p2(4) p2f by simp
    show "e # r' \<noteq> [] \<longrightarrow> s \<notin> set (x # p2)" using xs sp2 by simp
    show "path_cost ?X fst ((x @ ''_3'') # e # r') = path_cost ?G (return_weight g fs) (x # p2)"
      using w fw l p2(6) e p2f by simp
  qed
qed


lemma up_walk_decomp:
  assumes caps: "\<forall>n \<in> set cns. map_of caps n \<noteq> None"
    and ex: "expand_network nodes edges cns caps s d = Inr (V, E)"
    and ends: "\<forall>(u, v, l) \<in> set edges. CHR ''_'' \<notin> set u \<and> CHR ''_'' \<notin> set v"
    and cns: "\<forall>n \<in> set cns. CHR ''_'' \<notin> set n"
    and bw: "\<forall>(k, a) \<in> set (gadj (original_graph nodes edges)). bandwidth a \<noteq> 0"
  shows "is_walk (built_graph fs g om caps E) (a # r) \<Longrightarrow> CHR ''_'' \<notin> set a \<Longrightarrow>
         last (a # r) = d @ ''_3'' \<Longrightarrow>
         \<exists>p1 c p2. c \<in> set cns
           \<and> is_walk (original_graph nodes edges) p1 \<and> p1 \<noteq> [] \<and> hd p1 = a \<and> last p1 = c
           \<and> is_walk (original_graph nodes edges) p2 \<and> p2 \<noteq> [] \<and> hd p2 = c \<and> last p2 = d
           \<and> (2 \<le> length p2 \<longrightarrow> s \<notin> set p2)
           \<and> path_cost (built_graph fs g om caps E) fst (a # r)
               = path_cost (original_graph nodes edges) (forward_weight fs) p1
                 + (if caps_get caps (split_head (c @ ''_2'')) 1 = 0 then 0
                    else om * fs / caps_get caps (split_head (c @ ''_2'')) 1)
                 + path_cost (original_graph nodes edges) (return_weight g fs) p2"
proof (induction r arbitrary: a)
  case Nil
  then show ?case by auto
next
  case (Cons b r')
  let ?X = "built_graph fs g om caps E" and ?G = "original_graph nodes edges"
  from Cons.prems(1) obtain w where w: "edge_attr ?X a b = Some w"
    and rest: "is_walk ?X (b # r')" by auto
  show ?case
  proof (cases "CHR ''_'' \<in> set b")
    case False
    from w have bd: "b \<noteq> d"
      and m: "map_option (\<lambda>l. (if bandwidth l = 0 then 0 else forward_weight fs l, ''C-UCL''))
             (edge_attr ?G a b) = Some w"
      unfolding built_plain_plain [OF caps ex Cons.prems(2) False] by (auto split: if_splits)
    then obtain l where l: "edge_attr ?G a b = Some l"
      and wv: "w = (if bandwidth l = 0 then 0 else forward_weight fs l, ''C-UCL'')" by auto
    have "bandwidth l \<noteq> 0" using bw edge_attr_in_gadj [OF l] by fastforce
    then have fw: "fst w = forward_weight fs l" using wv by simp
    have "last (b # r') = d @ ''_3''" using Cons.prems(3) by simp
    from Cons.IH [OF rest False this] obtain p1 c p2 where
      ih: "c \<in> set cns" "is_walk ?G p1" "p1 \<noteq> []" "hd p1 = b" "last p1 = c"
        "is_walk ?G p2" "p2 \<noteq> []" "hd p2 = c" "last p2 = d" "2 \<le> length p2 \<longrightarrow> s \<notin> set p2"
        "path_cost ?X fst (b # r')
               = path_cost ?G (forward_weight fs) p1
                 + (if caps_get caps (split_head (c @ ''_2'')) 1 = 0 then 0
                    else om * fs / caps_get caps (split_head (c @ ''_2'')) 1)
                 + path_cost ?G (return_weight g fs) p2"
      by (elim exE conjE) (rule that; assumption)
    obtain rest1 where p1f: "p1 = b # rest1" using ih(3,4) by (cases p1) auto
    show ?thesis
    proof (rule exI [of _ "a # p1"], rule exI [of _ c], rule exI [of _ p2], intro conjI)
      show "is_walk ?G (a # p1)" using l ih(2) p1f by simp
      show "last (a # p1) = c" using ih(3,5) by simp
      show "path_cost ?X fst (a # b # r')
               = path_cost ?G (forward_weight fs) (a # p1)
                 + (if caps_get caps (split_head (c @ ''_2'')) 1 = 0 then 0
                    else om * fs / caps_get caps (split_head (c @ ''_2'')) 1)
                 + path_cost ?G (return_weight g fs) p2"
        using w fw l ih(11) p1f by simp
    qed (use ih in simp_all)
  next
    case True
    from built_plain_other [OF caps ex ends Cons.prems(2) True w]
    have ac: "a \<in> set cns" and b: "b = a @ ''_2''"
      and wv: "w = (if caps_get caps (split_head (a @ ''_2'')) 1 = 0 then 0
                else om * fs / caps_get caps (split_head (a @ ''_2'')) 1, ''UCL-CL'')"
      by auto
    have "r' \<noteq> []"
    proof
      assume "r' = []"
      then have "a @ ''_2'' = d @ ''_3''" using Cons.prems(3) b by simp
      then show False by simp
    qed
    then obtain e r'' where r': "r' = e # r''" by (cases r') auto
    from rest obtain w' where w': "edge_attr ?X (a @ ''_2'') e = Some w'"
      and rest2: "is_walk ?X (e # r'')" unfolding b r' by auto
    from built_from_mid [OF caps ex ends cns w'] have e: "e = a @ ''_3''" and w'v: "w' = (0, ''CL-DCL'')"
      by auto
    have "is_walk ?X ((a @ ''_3'') # r'')" using rest2 e by simp
    from down_walk_decomp [OF caps ex ends cns bw this] obtain p2 where
      p2: "(a @ ''_3'') # r'' = map (\<lambda>n. n @ ''_3'') p2" "hd p2 = a" "p2 \<noteq> []" "is_walk ?G p2"
        "r'' \<noteq> [] \<longrightarrow> s \<notin> set p2"
        "path_cost ?X fst ((a @ ''_3'') # r'') = path_cost ?G (return_weight g fs) p2"
      by (elim exE conjE) (rule that; assumption)
    have "last ((a @ ''_3'') # r'') = d @ ''_3''"
      using Cons.prems(3) unfolding b r' e by simp
    then have "last (map (\<lambda>n. n @ ''_3'') p2) = d @ ''_3''"
      unfolding p2(1) .
    then have lastp2: "last p2 = d" using p2(3) by (simp add: last_map)
    have len: "length p2 = Suc (length r'')" using p2(1) by (metis length_map length_Cons)
    show ?thesis
    proof (rule exI [of _ "[a]"], rule exI [of _ a], rule exI [of _ p2], intro conjI)
      show "2 \<le> length p2 \<longrightarrow> s \<notin> set p2" using p2(5) len by auto
      show "path_cost ?X fst (a # b # r')
               = path_cost ?G (forward_weight fs) [a]
                 + (if caps_get caps (split_head (a @ ''_2'')) 1 = 0 then 0
                    else om * fs / caps_get caps (split_head (a @ ''_2'')) 1)
                 + path_cost ?G (return_weight g fs) p2"
        using w wv w' w'v p2(6) unfolding b r' e by simp
    qed (use ac p2 lastp2 in simp_all)
  qed
qed

section \<open>The replica expansion against CPEG\<close>

lemma digit_char_digit: "n < 10 \<Longrightarrow> digit_char n \<in> set ''0123456789''"
  unfolding digit_char_def by (rule nth_mem) simp

lemma string_of_nat_digits: "set (string_of_nat n) \<subseteq> set ''0123456789''"
proof (induction n rule: string_of_nat.induct)
  case (1 n)
  show ?case
  proof (cases "n < 10")
    case True
    then show ?thesis using digit_char_digit [of n] by (subst string_of_nat.simps) simp
  next
    case False
    have "n mod 10 < 10" by simp
    then have "digit_char (n mod 10) \<in> set ''0123456789''" by (rule digit_char_digit)
    then show ?thesis using False 1
      by (subst string_of_nat.simps) simp
  qed
qed

lemma string_of_nat_plain: "CHR ''_'' \<notin> set (string_of_nat n)"
  using string_of_nat_digits [of n] by auto

lemma string_of_nat_not_super: "string_of_nat n \<noteq> ''Super_Dest''"
proof
  assume "string_of_nat n = ''Super_Dest''"
  then have "CHR ''_'' \<in> set (string_of_nat n)" by simp
  then show False using string_of_nat_plain by blast
qed

lemma plain_prefix_eq:
  assumes "CHR ''_'' \<notin> set x" and "CHR ''_'' \<notin> set y" and "x @ CHR ''_'' # r = y @ CHR ''_'' # t"
  shows "x = y \<and> r = t"
proof -
  have "takeWhile (\<lambda>c. c \<noteq> CHR ''_'') (x @ CHR ''_'' # r) = x"
    using assms(1) by (subst takeWhile_append2) auto
  moreover have "takeWhile (\<lambda>c. c \<noteq> CHR ''_'') (y @ CHR ''_'' # t) = y"
    using assms(2) by (subst takeWhile_append2) auto
  ultimately have "x = y" using assms(3) by simp
  then show ?thesis using assms(3) by simp
qed

lemma cne_build_ok:
  "\<forall>e \<in> set E. \<exists>w. cne_weight fs g om caps e = Inr w \<Longrightarrow>
   cne_build fs g om caps E G = Inr (add_edges_from G (map (cne_weighted fs g om caps) E))"
proof (induction E arbitrary: G)
  case Nil
  then show ?case by simp
next
  case (Cons e E)
  obtain u v ed layer where e: "e = (u, v, ed, layer)" by (cases e) auto
  from Cons.prems e obtain w where w: "cne_weight fs g om caps (u, v, ed, layer) = Inr w" by auto
  have we: "cne_weighted fs g om caps e = (u, v, w, layer)"
    using w e by (simp add: cne_weighted_def)
  have "cne_build fs g om caps E (add_edge G u v (w, layer))
          = Inr (add_edges_from (add_edge G u v (w, layer)) (map (cne_weighted fs g om caps) E))"
    using Cons.IH Cons.prems by simp
  then show ?case
    using w we by (simp add: e)
qed

lemma compute_edges_ok:
  "\<forall>(i, n) \<in> set ics. map_of caps n \<noteq> None \<Longrightarrow>
   compute_edges caps ics =
     Inr (map (\<lambda>(i, n). (n, n @ ''_'' @ string_of_nat i, CapacityDict (the (map_of caps n)),
                          ''compute'')) ics)"
proof (induction ics)
  case Nil
  then show ?case by simp
next
  case (Cons x ics)
  obtain i n where x: "x = (i, n)" by (cases x) auto
  then show ?case using Cons by (auto simp: caps_index_def)
qed

lemma expand_network_CNE_ok:
  assumes "\<forall>n \<in> set cns. map_of caps n \<noteq> None"
  shows "\<exists>V. expand_network_CNE nodes edges cns caps s d =
           Inr (V, cne_edges edges cns caps s d, d @ ''_Super_Dest'')"
proof -
  have "\<forall>(i, n) \<in> set (zip [1..<length cns + 1] cns). map_of caps n \<noteq> None"
    using assms by (auto dest: set_zip_rightD)
  from compute_edges_ok [OF this] show ?thesis
    by (simp add: expand_network_CNE_def Let_def cne_edges_def del: upt_Suc)
qed

lemma cne_edge_kinds:
  assumes e: "(a, b, ed, layer) \<in> set (cne_edges edges cns caps s d)"
  shows "(\<exists>l. (a, b, l) \<in> set edges \<and> ed = Attrs l \<and> layer = ''original'')
       \<or> (\<exists>x y l i. (x, y, l) \<in> set edges \<and> x \<noteq> s \<and> y \<noteq> s
              \<and> a = x @ ''_'' @ string_of_nat i \<and> b = y @ ''_'' @ string_of_nat i
              \<and> ed = Attrs l \<and> layer = ''copied'')
       \<or> (\<exists>i. a \<in> set cns \<and> b = a @ ''_'' @ string_of_nat i
              \<and> ed = CapacityDict (the (map_of caps a)) \<and> layer = ''compute'')
       \<or> (\<exists>i. a = d @ ''_'' @ string_of_nat i \<and> b = d @ ''_Super_Dest''
              \<and> ed = Number 0 \<and> layer = ''aggregate'')"
proof -
  define A where "A = map (\<lambda>(u, v, weight). (u, v, Attrs weight, ''original'')) edges"
  define B where "B = concat (map (\<lambda>i. map (\<lambda>(u, v, weight).
                                   (u @ ''_'' @ string_of_nat i, v @ ''_'' @ string_of_nat i,
                                    Attrs weight, ''copied''))
                                 (filter (\<lambda>(u, v, weight). u \<noteq> s \<and> v \<noteq> s) edges))
                           [1..<length cns + 1])"
  define C where "C = map (\<lambda>(i, n). (n, n @ ''_'' @ string_of_nat i,
                          CapacityDict (the (map_of caps n)), ''compute''))
                        (zip [1..<length cns + 1] cns)"
  define D where "D = map (\<lambda>i. (d @ ''_'' @ string_of_nat i, d @ ''_Super_Dest'', Number 0,
                          ''aggregate'')) [1..<length cns + 1]"
  have "cne_edges edges cns caps s d = A @ B @ C @ D"
    unfolding cne_edges_def A_def B_def C_def D_def ..
  with e have mem: "(a, b, ed, layer) \<in> set A \<or> (a, b, ed, layer) \<in> set B
      \<or> (a, b, ed, layer) \<in> set C \<or> (a, b, ed, layer) \<in> set D"
    by simp
  have a: "\<exists>l. (a, b, l) \<in> set edges \<and> ed = Attrs l \<and> layer = ''original''"
    if "(a, b, ed, layer) \<in> set A"
  proof -
    from that obtain e where e: "e \<in> set edges"
      and eq: "(a, b, ed, layer) = (\<lambda>(u, v, weight). (u, v, Attrs weight, ''original'')) e"
      unfolding A_def set_map by (rule imageE)
    obtain x y l where xyl: "e = (x, y, l)" by (cases e) auto
    have "(a, b, l) \<in> set edges \<and> ed = Attrs l \<and> layer = ''original''"
      using e eq unfolding xyl by simp
    then show ?thesis by (rule exI [of _ l])
  qed
  have b: "\<exists>x y l i. (x, y, l) \<in> set edges \<and> x \<noteq> s \<and> y \<noteq> s
              \<and> a = x @ ''_'' @ string_of_nat i \<and> b = y @ ''_'' @ string_of_nat i
              \<and> ed = Attrs l \<and> layer = ''copied''"
    if "(a, b, ed, layer) \<in> set B"
  proof -
    define F where "F = (\<lambda>i. map (\<lambda>(u, v, weight).
                                   (u @ ''_'' @ string_of_nat i, v @ ''_'' @ string_of_nat i,
                                    Attrs weight, ''copied''))
                                 (filter (\<lambda>(u, v, weight). u \<noteq> s \<and> v \<noteq> s) edges))"
    have BF: "B = concat (map F [1..<length cns + 1])" unfolding B_def F_def ..
    from that obtain i where "(a, b, ed, layer) \<in> set (F i)"
      unfolding BF set_concat set_map by blast
    then have "(a, b, ed, layer) \<in> set (map (\<lambda>(u, v, weight).
                                   (u @ ''_'' @ string_of_nat i, v @ ''_'' @ string_of_nat i,
                                    Attrs weight, ''copied''))
                                 (filter (\<lambda>(u, v, weight). u \<noteq> s \<and> v \<noteq> s) edges))"
      unfolding F_def .
    then obtain e where e: "e \<in> set (filter (\<lambda>(u, v, weight). u \<noteq> s \<and> v \<noteq> s) edges)"
      and eq: "(a, b, ed, layer) = (\<lambda>(u, v, weight).
                                   (u @ ''_'' @ string_of_nat i, v @ ''_'' @ string_of_nat i,
                                    Attrs weight, ''copied'')) e"
      unfolding set_map by (rule imageE)
    obtain x y l where xyl: "e = (x, y, l)" by (cases e) auto
    have "(x, y, l) \<in> set edges \<and> x \<noteq> s \<and> y \<noteq> s" using e unfolding xyl by simp
    moreover have "a = x @ ''_'' @ string_of_nat i \<and> b = y @ ''_'' @ string_of_nat i
              \<and> ed = Attrs l \<and> layer = ''copied''" using eq unfolding xyl by simp
    ultimately show ?thesis by blast
  qed
  have c: "\<exists>i. a \<in> set cns \<and> b = a @ ''_'' @ string_of_nat i
              \<and> ed = CapacityDict (the (map_of caps a)) \<and> layer = ''compute''"
    if "(a, b, ed, layer) \<in> set C"
  proof -
    from that obtain e where e: "e \<in> set (zip [1..<length cns + 1] cns)"
      and eq: "(a, b, ed, layer) = (\<lambda>(i, n). (n, n @ ''_'' @ string_of_nat i,
                          CapacityDict (the (map_of caps n)), ''compute'')) e"
      unfolding C_def set_map by (rule imageE)
    obtain i n where inn: "e = (i, n)" by (cases e) auto
    have "n \<in> set cns" using e unfolding inn by (rule set_zip_rightD)
    moreover have "a = n \<and> b = n @ ''_'' @ string_of_nat i
       \<and> ed = CapacityDict (the (map_of caps n)) \<and> layer = ''compute''"
      using eq unfolding inn by simp
    ultimately show ?thesis by blast
  qed
  have d: "\<exists>i. a = d @ ''_'' @ string_of_nat i \<and> b = d @ ''_Super_Dest''
              \<and> ed = Number 0 \<and> layer = ''aggregate''"
    if "(a, b, ed, layer) \<in> set D"
  proof -
    from that obtain i where
      "(a, b, ed, layer) = (d @ ''_'' @ string_of_nat i, d @ ''_Super_Dest'', Number 0,
                          ''aggregate'')"
      unfolding D_def set_map by (rule imageE)
    then have "a = d @ ''_'' @ string_of_nat i \<and> b = d @ ''_Super_Dest''
              \<and> ed = Number 0 \<and> layer = ''aggregate''" by simp
    then show ?thesis by (rule exI [of _ i])
  qed
  from mem show ?thesis
  proof (elim disjE)
    assume "(a, b, ed, layer) \<in> set A"
    then show ?thesis by (rule disjI1 [OF a])
  next
    assume "(a, b, ed, layer) \<in> set B"
    then show ?thesis by (rule disjI2 [OF disjI1 [OF b]])
  next
    assume "(a, b, ed, layer) \<in> set C"
    then show ?thesis by (rule disjI2 [OF disjI2 [OF disjI1 [OF c]]])
  next
    assume "(a, b, ed, layer) \<in> set D"
    then show ?thesis by (rule disjI2 [OF disjI2 [OF disjI2 [OF d]]])
  qed
qed

lemma cne_edge_members:
  shows "(u, v, l) \<in> set edges \<Longrightarrow>
           (u, v, Attrs l, ''original'') \<in> set (cne_edges edges cns caps s d)"
    and "(x, y, l) \<in> set edges \<Longrightarrow> x \<noteq> s \<Longrightarrow> y \<noteq> s \<Longrightarrow> i \<in> {1..length cns} \<Longrightarrow>
         (x @ ''_'' @ string_of_nat i, y @ ''_'' @ string_of_nat i, Attrs l, ''copied'')
           \<in> set (cne_edges edges cns caps s d)"
    and "(i, c) \<in> set (zip [1..<length cns + 1] cns) \<Longrightarrow>
         (c, c @ ''_'' @ string_of_nat i, CapacityDict (the (map_of caps c)), ''compute'')
           \<in> set (cne_edges edges cns caps s d)"
    and "i \<in> {1..length cns} \<Longrightarrow>
         (d @ ''_'' @ string_of_nat i, d @ ''_Super_Dest'', Number 0, ''aggregate'')
           \<in> set (cne_edges edges cns caps s d)"
proof -
  define A where "A = map (\<lambda>(u, v, weight). (u, v, Attrs weight, ''original'')) edges"
  define B where "B = concat (map (\<lambda>i. map (\<lambda>(u, v, weight).
                                   (u @ ''_'' @ string_of_nat i, v @ ''_'' @ string_of_nat i,
                                    Attrs weight, ''copied''))
                                 (filter (\<lambda>(u, v, weight). u \<noteq> s \<and> v \<noteq> s) edges))
                           [1..<length cns + 1])"
  define C where "C = map (\<lambda>(i, n). (n, n @ ''_'' @ string_of_nat i,
                          CapacityDict (the (map_of caps n)), ''compute''))
                        (zip [1..<length cns + 1] cns)"
  define D where "D = map (\<lambda>i. (d @ ''_'' @ string_of_nat i, d @ ''_Super_Dest'', Number 0,
                          ''aggregate'')) [1..<length cns + 1]"
  have E: "cne_edges edges cns caps s d = A @ B @ C @ D"
    unfolding cne_edges_def A_def B_def C_def D_def ..
  have S: "set (cne_edges edges cns caps s d) = set A \<union> (set B \<union> (set C \<union> set D))"
    unfolding E set_append ..
  show "(u, v, Attrs l, ''original'') \<in> set (cne_edges edges cns caps s d)"
    if "(u, v, l) \<in> set edges"
  proof -
    have "(u, v, Attrs l, ''original'') \<in> set A"
      unfolding A_def set_map using that by (rule rev_image_eqI) simp
    then show ?thesis unfolding S by (rule UnI1)
  qed
  show "(x @ ''_'' @ string_of_nat i, y @ ''_'' @ string_of_nat i, Attrs l, ''copied'')
           \<in> set (cne_edges edges cns caps s d)"
    if "(x, y, l) \<in> set edges" "x \<noteq> s" "y \<noteq> s" "i \<in> {1..length cns}"
  proof -
    have 1: "(x, y, l) \<in> set (filter (\<lambda>(u, v, weight). u \<noteq> s \<and> v \<noteq> s) edges)"
      using that by simp
    have 2: "i \<in> set [1..<length cns + 1]" using that(4) by (simp del: upt_Suc)
    define F where "F = (\<lambda>i. map (\<lambda>(u, v, weight).
                                   (u @ ''_'' @ string_of_nat i, v @ ''_'' @ string_of_nat i,
                                    Attrs weight, ''copied''))
                                 (filter (\<lambda>(u, v, weight). u \<noteq> s \<and> v \<noteq> s) edges))"
    have BF: "B = concat (map F [1..<length cns + 1])" unfolding B_def F_def ..
    have 3: "(x @ ''_'' @ string_of_nat i, y @ ''_'' @ string_of_nat i, Attrs l, ''copied'')
           \<in> set (F i)"
      unfolding F_def set_map using 1 by (rule rev_image_eqI) simp
    have "set (F i) \<in> set (map set (map F [1..<length cns + 1]))"
      using 2 by (simp del: upt_Suc)
    then have "(x @ ''_'' @ string_of_nat i, y @ ''_'' @ string_of_nat i, Attrs l, ''copied'')
           \<in> set B"
      unfolding BF set_concat using 3 by (auto simp del: upt_Suc)
    then show ?thesis unfolding S by (rule UnI2 [OF UnI1])
  qed
  show "(c, c @ ''_'' @ string_of_nat i, CapacityDict (the (map_of caps c)), ''compute'')
           \<in> set (cne_edges edges cns caps s d)"
    if "(i, c) \<in> set (zip [1..<length cns + 1] cns)"
  proof -
    have "(c, c @ ''_'' @ string_of_nat i, CapacityDict (the (map_of caps c)), ''compute'')
           \<in> set C"
      unfolding C_def set_map using that by (rule rev_image_eqI) simp
    then show ?thesis unfolding S by (rule UnI2 [OF UnI2 [OF UnI1]])
  qed
  show "(d @ ''_'' @ string_of_nat i, d @ ''_Super_Dest'', Number 0, ''aggregate'')
           \<in> set (cne_edges edges cns caps s d)"
    if "i \<in> {1..length cns}"
  proof -
    have 2: "i \<in> set [1..<length cns + 1]" using that by (simp del: upt_Suc)
    have "(d @ ''_'' @ string_of_nat i, d @ ''_Super_Dest'', Number 0, ''aggregate'') \<in> set D"
      unfolding D_def set_map using 2 by (rule rev_image_eqI) simp
    then show ?thesis unfolding S by (rule UnI2 [OF UnI2 [OF UnI2]])
  qed
qed

lemma cne_lookup:
  assumes mem: "(a, b, ed, layer) \<in> set E"
    and w: "cne_weight fs g om caps (a, b, ed, layer) = Inr x"
    and uniq: "\<forall>ed' layer'. (a, b, ed', layer') \<in> set E \<longrightarrow>
                 layer' = layer \<and> cne_weight fs g om caps (a, b, ed', layer') = Inr x"
  shows "edge_attr (cne_graph fs g om caps E) a b = Some (x, layer)"
proof -
  have "map_of (rev (keyed (map (cne_weighted fs g om caps) E))) (a, b) = Some (x, layer)"
  proof (rule map_of_const)
    have "cne_weighted fs g om caps (a, b, ed, layer) = (a, b, x, layer)"
      using w by (simp add: cne_weighted_def)
    then have "(a, b, x, layer) \<in> set (map (cne_weighted fs g om caps) E)"
      using mem unfolding set_map by (metis imageI)
    then have "((a, b), (x, layer)) \<in> set (keyed (map (cne_weighted fs g om caps) E))"
      unfolding keyed_def set_map by (rule rev_image_eqI) simp
    then show "(a, b) \<in> fst ` set (rev (keyed (map (cne_weighted fs g om caps) E)))"
      unfolding set_rev by (rule rev_image_eqI) simp
  next
    fix v' assume "((a, b), v') \<in> set (rev (keyed (map (cne_weighted fs g om caps) E)))"
    then have "((a, b), v') \<in> (\<lambda>(u, v, a). ((u, v), a)) ` cne_weighted fs g om caps ` set E"
      unfolding keyed_def set_rev set_map .
    then obtain e where e: "e \<in> set E"
      and eq: "((a, b), v') = (\<lambda>(u, v, a). ((u, v), a)) (cne_weighted fs g om caps e)"
      by blast
    obtain a' b' ed' layer' where e': "e = (a', b', ed', layer')" by (cases e) auto
    from eq have ab: "a' = a" "b' = b"
      and v': "v' = (case cne_weight fs g om caps (a, b, ed', layer') of Inl err \<Rightarrow> 0 | Inr w \<Rightarrow> w, layer')"
      unfolding e' by (simp_all add: cne_weighted_def)
    from e have "(a, b, ed', layer') \<in> set E" unfolding e' ab .
    with uniq have L: "layer' = layer"
      and W: "cne_weight fs g om caps (a, b, ed', layer') = Inr x" by blast+
    show "v' = (x, layer)" unfolding v' W using L by simp
  qed
  then show ?thesis unfolding cne_graph_def edge_attr_built .
qed

lemma distinct_edges_unique:
  assumes "distinct (map (\<lambda>(u, v, l). (u, v)) edges)"
    and "(u, v, l) \<in> set edges" and "(u, v, l') \<in> set edges"
  shows "l = l'"
proof -
  have "inj_on (\<lambda>(u, v, l). (u, v)) (set edges)" using assms(1) by (simp add: distinct_map)
  then have "(u, v, l) = (u, v, l')"
    by (rule inj_onD) (use assms(2,3) in simp_all)
  then show ?thesis by simp
qed

lemma valid_network_link:
  assumes "valid_network nodes edges cns caps" and "(u, v, l) \<in> set edges"
  shows "valid_link l" and "u \<in> set nodes" and "v \<in> set nodes"
  using assms by (auto simp: valid_network_def list_all_iff)

lemma valid_network_cap:
  assumes "valid_network nodes edges cns caps" and "c \<in> set cns"
  shows "\<exists>cap. map_of caps c = Some cap \<and> 0 < cap"
proof -
  from valid_network_caps [OF assms] obtain cap where cap: "map_of caps c = Some cap" by auto
  then have "(c, cap) \<in> set caps" by (rule map_of_SomeD)
  then have "0 < cap" using assms(1) by (auto simp: valid_network_def list_all_iff)
  with cap show ?thesis by blast
qed

lemma plain_names_mem: "plain_names nodes \<Longrightarrow> n \<in> set nodes \<Longrightarrow> CHR ''_'' \<notin> set n"
  by (simp add: plain_names_def list_all_iff)

lemma valid_network_edge:
  assumes "valid_network nodes edges cns caps" and "plain_names nodes" and "(u, v, l) \<in> set edges"
  shows "CHR ''_'' \<notin> set u" and "CHR ''_'' \<notin> set v"
  using valid_network_link(2,3) [OF assms(1,3)] plain_names_mem [OF assms(2)] by blast+

lemma valid_network_compute:
  assumes "valid_network nodes edges cns caps" and "plain_names nodes" and "c \<in> set cns"
  shows "CHR ''_'' \<notin> set c"
proof -
  have "c \<in> set nodes" using assms(1,3) by (auto simp: valid_network_def list_all_iff)
  then show ?thesis by (rule plain_names_mem [OF assms(2)])
qed

lemma replica_names_eq:
  assumes "CHR ''_'' \<notin> set x" and "CHR ''_'' \<notin> set y"
    and "x @ ''_'' @ r = y @ ''_'' @ t"
  shows "x = y" and "r = t"
  using plain_prefix_eq [OF assms(1,2), of r t] assms(3) by simp_all

lemma replica_not_super:
  assumes "CHR ''_'' \<notin> set y" and "CHR ''_'' \<notin> set d"
  shows "y @ ''_'' @ string_of_nat i \<noteq> d @ ''_Super_Dest''"
proof
  assume "y @ ''_'' @ string_of_nat i = d @ ''_Super_Dest''"
  then have "y @ CHR ''_'' # string_of_nat i = d @ CHR ''_'' # ''Super_Dest''" by simp
  from plain_prefix_eq [OF assms this] have "string_of_nat i = ''Super_Dest''" by simp
  then show False using string_of_nat_not_super by blast
qed

lemma replica_not_plain: "CHR ''_'' \<notin> set (x @ ''_'' @ r) \<Longrightarrow> False"
  by simp

lemma cne_weight_original:
  "bandwidth l \<noteq> 0 \<Longrightarrow>
   cne_weight fs g om caps (a, b, Attrs l, ''original'') = Inr (forward_weight fs l)"
  by (simp add: linkDelay_def forward_weight_def)

lemma cne_weight_copied:
  "bandwidth l \<noteq> 0 \<Longrightarrow>
   cne_weight fs g om caps (a, b, Attrs l, ''copied'') = Inr (return_weight g fs l)"
  by (simp add: linkDelay_def return_weight_def)

lemma cne_weight_compute:
  "map_of caps a = Some cap \<Longrightarrow> 0 < cap \<Longrightarrow>
   cne_weight fs g om caps (a, b, CapacityDict c, layer) = Inr (om * fs / cap)"
  by (simp add: computeDelay_def)

lemma cne_edge_original:
  assumes net: "valid_network nodes edges cns caps" and plain: "plain_names nodes"
    and dist: "distinct (map (\<lambda>(u, v, l). (u, v)) edges)"
    and e: "(u, v, l) \<in> set edges"
  shows "edge_attr (cne_graph fs g om caps (cne_edges edges cns caps s d)) u v
           = Some (forward_weight fs l, ''original'')"
proof -
  note pe = valid_network_edge [OF net plain]
  have pu: "CHR ''_'' \<notin> set u" and pv: "CHR ''_'' \<notin> set v" using pe [OF e] by blast+
  have mem: "(u, v, Attrs l, ''original'') \<in> set (cne_edges edges cns caps s d)"
    by (rule cne_edge_members(1) [OF e])
  have "bandwidth l \<noteq> 0" using valid_network_link(1) [OF net e] by (simp add: valid_link_def)
  then have w: "cne_weight fs g om caps (u, v, Attrs l, ''original'') = Inr (forward_weight fs l)"
    by (rule cne_weight_original)
  have uniq: "\<forall>ed' layer'. (u, v, ed', layer') \<in> set (cne_edges edges cns caps s d) \<longrightarrow>
      layer' = ''original''
      \<and> cne_weight fs g om caps (u, v, ed', layer') = Inr (forward_weight fs l)"
  proof (intro allI impI)
    fix ed' layer' assume m: "(u, v, ed', layer') \<in> set (cne_edges edges cns caps s d)"
    from cne_edge_kinds [OF m]
    show "layer' = ''original''
      \<and> cne_weight fs g om caps (u, v, ed', layer') = Inr (forward_weight fs l)"
    proof (elim disjE exE conjE)
      fix l' assume a: "(u, v, l') \<in> set edges" "ed' = Attrs l'" "layer' = ''original''"
      have "l' = l" using distinct_edges_unique [OF dist a(1) e] .
      then show ?thesis using a(2,3) w by simp
    next
      fix x y l' i assume "u = x @ ''_'' @ string_of_nat i"
      then have False using pu by simp
      then show ?thesis ..
    next
      fix i assume "v = u @ ''_'' @ string_of_nat i"
      then have False using pv by simp
      then show ?thesis ..
    next
      fix i assume "u = d @ ''_'' @ string_of_nat i"
      then have False using pu by simp
      then show ?thesis ..
    qed
  qed
  show ?thesis by (rule cne_lookup [OF mem w uniq])
qed

lemma cne_edge_copied:
  assumes net: "valid_network nodes edges cns caps" and plain: "plain_names nodes"
    and dist: "distinct (map (\<lambda>(u, v, l). (u, v)) edges)"
    and pd: "CHR ''_'' \<notin> set d"
    and e: "(x, y, l) \<in> set edges" and xy: "x \<noteq> s" "y \<noteq> s" and i: "i \<in> {1..length cns}"
  shows "edge_attr (cne_graph fs g om caps (cne_edges edges cns caps s d))
           (x @ ''_'' @ string_of_nat i) (y @ ''_'' @ string_of_nat i)
           = Some (return_weight g fs l, ''copied'')"
proof -
  note pe = valid_network_edge [OF net plain]
  have px: "CHR ''_'' \<notin> set x" and py: "CHR ''_'' \<notin> set y" using pe [OF e] by blast+
  have mem: "(x @ ''_'' @ string_of_nat i, y @ ''_'' @ string_of_nat i, Attrs l, ''copied'')
               \<in> set (cne_edges edges cns caps s d)"
    by (rule cne_edge_members(2) [OF e xy i])
  have "bandwidth l \<noteq> 0" using valid_network_link(1) [OF net e] by (simp add: valid_link_def)
  then have w: "cne_weight fs g om caps
         (x @ ''_'' @ string_of_nat i, y @ ''_'' @ string_of_nat i, Attrs l, ''copied'')
       = Inr (return_weight g fs l)"
    by (rule cne_weight_copied)
  have uniq: "\<forall>ed' layer'. (x @ ''_'' @ string_of_nat i, y @ ''_'' @ string_of_nat i, ed', layer')
                 \<in> set (cne_edges edges cns caps s d) \<longrightarrow>
      layer' = ''copied''
      \<and> cne_weight fs g om caps
           (x @ ''_'' @ string_of_nat i, y @ ''_'' @ string_of_nat i, ed', layer')
         = Inr (return_weight g fs l)"
  proof (intro allI impI)
    fix ed' layer'
    assume m: "(x @ ''_'' @ string_of_nat i, y @ ''_'' @ string_of_nat i, ed', layer')
                 \<in> set (cne_edges edges cns caps s d)"
    from cne_edge_kinds [OF m]
    show "layer' = ''copied''
      \<and> cne_weight fs g om caps
           (x @ ''_'' @ string_of_nat i, y @ ''_'' @ string_of_nat i, ed', layer')
         = Inr (return_weight g fs l)"
    proof (elim disjE exE conjE)
      fix l' assume "(x @ ''_'' @ string_of_nat i, y @ ''_'' @ string_of_nat i, l') \<in> set edges"
      from pe(1) [OF this] have False by (rule replica_not_plain)
      then show ?thesis ..
    next
      fix x' y' l' j assume a: "(x', y', l') \<in> set edges"
        "x @ ''_'' @ string_of_nat i = x' @ ''_'' @ string_of_nat j"
        "y @ ''_'' @ string_of_nat i = y' @ ''_'' @ string_of_nat j"
        "ed' = Attrs l'" "layer' = ''copied''"
      have px': "CHR ''_'' \<notin> set x'" and py': "CHR ''_'' \<notin> set y'" using pe [OF a(1)] by blast+
      have "x = x'" by (rule replica_names_eq(1) [OF px px' a(2)])
      moreover have "y = y'" by (rule replica_names_eq(1) [OF py py' a(3)])
      ultimately have "(x, y, l') \<in> set edges" using a(1) by simp
      then have "l' = l" using distinct_edges_unique [OF dist _ e] by blast
      then show ?thesis using a(4,5) w by simp
    next
      fix j assume "x @ ''_'' @ string_of_nat i \<in> set cns"
      from valid_network_compute [OF net plain this] have False by (rule replica_not_plain)
      then show ?thesis ..
    next
      fix j assume "y @ ''_'' @ string_of_nat i = d @ ''_Super_Dest''"
      then have False using replica_not_super [OF py pd, of i] by simp
      then show ?thesis ..
    qed
  qed
  show ?thesis by (rule cne_lookup [OF mem w uniq])
qed

lemma cne_edge_compute:
  assumes net: "valid_network nodes edges cns caps" and plain: "plain_names nodes"
    and ic: "(i, c) \<in> set (zip [1..<length cns + 1] cns)"
    and cap: "map_of caps c = Some cap"
  shows "edge_attr (cne_graph fs g om caps (cne_edges edges cns caps s d))
           c (c @ ''_'' @ string_of_nat i) = Some (om * fs / cap, ''compute'')"
proof -
  note pe = valid_network_edge [OF net plain]
  have c: "c \<in> set cns" using ic by (rule set_zip_rightD)
  have pc: "CHR ''_'' \<notin> set c" by (rule valid_network_compute [OF net plain c])
  have cpos: "0 < cap" using valid_network_cap [OF net c] cap by simp
  have mem: "(c, c @ ''_'' @ string_of_nat i, CapacityDict (the (map_of caps c)), ''compute'')
               \<in> set (cne_edges edges cns caps s d)"
    by (rule cne_edge_members(3) [OF ic])
  have w: "cne_weight fs g om caps (c, b, CapacityDict x, layer) = Inr (om * fs / cap)"
    for b x layer
    using cap cpos by (rule cne_weight_compute)
  have uniq: "\<forall>ed' layer'. (c, c @ ''_'' @ string_of_nat i, ed', layer')
                 \<in> set (cne_edges edges cns caps s d) \<longrightarrow>
      layer' = ''compute''
      \<and> cne_weight fs g om caps (c, c @ ''_'' @ string_of_nat i, ed', layer')
         = Inr (om * fs / cap)"
  proof (intro allI impI)
    fix ed' layer'
    assume m: "(c, c @ ''_'' @ string_of_nat i, ed', layer')
                 \<in> set (cne_edges edges cns caps s d)"
    from cne_edge_kinds [OF m]
    show "layer' = ''compute''
      \<and> cne_weight fs g om caps (c, c @ ''_'' @ string_of_nat i, ed', layer')
         = Inr (om * fs / cap)"
    proof (elim disjE exE conjE)
      fix l' assume "(c, c @ ''_'' @ string_of_nat i, l') \<in> set edges"
      from pe(2) [OF this] have False by (rule replica_not_plain)
      then show ?thesis ..
    next
      fix x' y' l' j assume "c = x' @ ''_'' @ string_of_nat j"
      then have False using pc by simp
      then show ?thesis ..
    next
      fix j assume a: "ed' = CapacityDict (the (map_of caps c))" "layer' = ''compute''"
      show ?thesis unfolding a using w by simp
    next
      fix j assume "c = d @ ''_'' @ string_of_nat j"
      then have False using pc by simp
      then show ?thesis ..
    qed
  qed
  show ?thesis by (rule cne_lookup [OF mem w uniq])
qed

lemma cne_edge_aggregate:
  assumes net: "valid_network nodes edges cns caps" and plain: "plain_names nodes"
    and pd: "CHR ''_'' \<notin> set d"
    and i: "i \<in> {1..length cns}"
  shows "edge_attr (cne_graph fs g om caps (cne_edges edges cns caps s d))
           (d @ ''_'' @ string_of_nat i) (d @ ''_Super_Dest'') = Some (0, ''aggregate'')"
proof -
  note pe = valid_network_edge [OF net plain]
  have mem: "(d @ ''_'' @ string_of_nat i, d @ ''_Super_Dest'', Number 0, ''aggregate'')
               \<in> set (cne_edges edges cns caps s d)"
    by (rule cne_edge_members(4) [OF i])
  have w: "cne_weight fs g om caps
             (d @ ''_'' @ string_of_nat i, d @ ''_Super_Dest'', Number 0, ''aggregate'') = Inr 0"
    by simp
  have uniq: "\<forall>ed' layer'. (d @ ''_'' @ string_of_nat i, d @ ''_Super_Dest'', ed', layer')
                 \<in> set (cne_edges edges cns caps s d) \<longrightarrow>
      layer' = ''aggregate''
      \<and> cne_weight fs g om caps (d @ ''_'' @ string_of_nat i, d @ ''_Super_Dest'', ed', layer')
         = Inr 0"
  proof (intro allI impI)
    fix ed' layer'
    assume m: "(d @ ''_'' @ string_of_nat i, d @ ''_Super_Dest'', ed', layer')
                 \<in> set (cne_edges edges cns caps s d)"
    from cne_edge_kinds [OF m]
    show "layer' = ''aggregate''
      \<and> cne_weight fs g om caps (d @ ''_'' @ string_of_nat i, d @ ''_Super_Dest'', ed', layer')
         = Inr 0"
    proof (elim disjE exE conjE)
      fix l' assume "(d @ ''_'' @ string_of_nat i, d @ ''_Super_Dest'', l') \<in> set edges"
      from pe(1) [OF this] have False by (rule replica_not_plain)
      then show ?thesis ..
    next
      fix x' y' l' j assume a: "(x', y', l') \<in> set edges"
        "d @ ''_Super_Dest'' = y' @ ''_'' @ string_of_nat j"
      have "CHR ''_'' \<notin> set y'" using pe(2) [OF a(1)] .
      from replica_not_super [OF this pd, of j] a(2) have False by simp
      then show ?thesis ..
    next
      fix j assume "d @ ''_'' @ string_of_nat i \<in> set cns"
      from valid_network_compute [OF net plain this] have False by (rule replica_not_plain)
      then show ?thesis ..
    next
      fix j assume a: "ed' = Number 0" "layer' = ''aggregate''"
      show ?thesis unfolding a by simp
    qed
  qed
  show ?thesis by (rule cne_lookup [OF mem w uniq])
qed

lemma forward_weight_nonneg:
  "valid_link l \<Longrightarrow> 0 < fs \<Longrightarrow> 0 \<le> forward_weight fs l"
  by (simp add: valid_link_def forward_weight_def)

lemma return_weight_nonneg:
  "valid_link l \<Longrightarrow> 0 < fs \<Longrightarrow> 1 \<le> g \<Longrightarrow> 0 \<le> return_weight g fs l"
  by (simp add: valid_link_def return_weight_def)

lemma cne_weight_valid:
  assumes net: "valid_network nodes edges cns caps" and flow: "valid_flow cns s d fs g om"
    and e: "(a, b, ed, layer) \<in> set (cne_edges edges cns caps s d)"
  shows "\<exists>w. cne_weight fs g om caps (a, b, ed, layer) = Inr w \<and> 0 \<le> w"
proof -
  have fl: "0 < fs" "1 \<le> g" "0 \<le> om" using flow by (simp_all add: valid_flow_def)
  from cne_edge_kinds [OF e] show ?thesis
  proof (elim disjE exE conjE)
    fix l assume a: "(a, b, l) \<in> set edges" "ed = Attrs l" "layer = ''original''"
    have vl: "valid_link l" by (rule valid_network_link(1) [OF net a(1)])
    then have "bandwidth l \<noteq> 0" by (simp add: valid_link_def)
    then have "cne_weight fs g om caps (a, b, ed, layer) = Inr (forward_weight fs l)"
      unfolding a(2,3) by (rule cne_weight_original)
    then show ?thesis using forward_weight_nonneg [OF vl fl(1)] by simp
  next
    fix x y l i assume a: "(x, y, l) \<in> set edges" "ed = Attrs l" "layer = ''copied''"
    have vl: "valid_link l" by (rule valid_network_link(1) [OF net a(1)])
    then have "bandwidth l \<noteq> 0" by (simp add: valid_link_def)
    then have "cne_weight fs g om caps (a, b, ed, layer) = Inr (return_weight g fs l)"
      unfolding a(2,3) by (rule cne_weight_copied)
    then show ?thesis using return_weight_nonneg [OF vl fl(1,2)] by simp
  next
    fix i assume a: "a \<in> set cns" "ed = CapacityDict (the (map_of caps a))" "layer = ''compute''"
    from valid_network_cap [OF net a(1)] obtain cap where
      cap: "map_of caps a = Some cap" "0 < cap" by blast
    have "cne_weight fs g om caps (a, b, ed, layer) = Inr (om * fs / cap)"
      unfolding a(2) using cap by (rule cne_weight_compute)
    moreover have "0 \<le> om * fs / cap" using fl cap(2) by simp
    ultimately show ?thesis by simp
  next
    fix i assume a: "ed = Number 0"
    show ?thesis unfolding a by simp
  qed
qed

lemma cne_build_built:
  assumes net: "valid_network nodes edges cns caps" and flow: "valid_flow cns s d fs g om"
  shows "cne_build fs g om caps (cne_edges edges cns caps s d) empty_graph
           = Inr (cne_graph fs g om caps (cne_edges edges cns caps s d))"
proof -
  have "\<forall>e \<in> set (cne_edges edges cns caps s d). \<exists>w. cne_weight fs g om caps e = Inr w"
  proof
    fix e assume e: "e \<in> set (cne_edges edges cns caps s d)"
    obtain a b ed layer where f: "e = (a, b, ed, layer)" by (cases e) auto
    from cne_weight_valid [OF net flow e [unfolded f]]
    show "\<exists>w. cne_weight fs g om caps e = Inr w" unfolding f by blast
  qed
  then show ?thesis unfolding cne_graph_def by (rule cne_build_ok)
qed

lemma wf_cne_graph: "wf_graph (cne_graph fs g om caps E)"
  unfolding cne_graph_def
  by (rule wf_graph_add_edges_from) (simp add: wf_graph_def empty_graph_def)

lemma cne_graph_nonneg:
  assumes net: "valid_network nodes edges cns caps" and flow: "valid_flow cns s d fs g om"
    and k: "(k, a) \<in> set (gadj (cne_graph fs g om caps (cne_edges edges cns caps s d)))"
  shows "0 \<le> fst a"
proof -
  let ?E = "cne_edges edges cns caps s d"
  from k gadj_add_edges_from_subset [of empty_graph "map (cne_weighted fs g om caps) ?E"]
  have "(k, a) \<in> (\<lambda>(u, v, a). ((u, v), a)) ` set (map (cne_weighted fs g om caps) ?E)"
    by (auto simp: cne_graph_def empty_graph_def)
  then obtain e where e: "e \<in> set ?E"
    and ka: "(k, a) = (\<lambda>(u, v, a). ((u, v), a)) (cne_weighted fs g om caps e)"
    unfolding set_map by blast
  obtain u v ed layer where f: "e = (u, v, ed, layer)" by (cases e) auto
  from cne_weight_valid [OF net flow e [unfolded f]] obtain w where
    w: "cne_weight fs g om caps (u, v, ed, layer) = Inr w" "0 \<le> w" by blast
  have "a = (w, layer)" using ka w(1) unfolding f by (simp add: cne_weighted_def)
  then show ?thesis using w(2) by simp
qed

lemma embed_original:
  assumes net: "valid_network nodes edges cns caps" and plain: "plain_names nodes"
    and dist: "distinct (map (\<lambda>(u, v, l). (u, v)) edges)"
  shows "is_walk (original_graph nodes edges) p \<Longrightarrow>
         is_walk (cne_graph fs g om caps (cne_edges edges cns caps s d)) p
         \<and> path_cost (cne_graph fs g om caps (cne_edges edges cns caps s d)) fst p
             = path_cost (original_graph nodes edges) (forward_weight fs) p"
proof (induction p rule: induct_list012)
  case 1
  then show ?case by simp
next
  case (2 x)
  then show ?case by simp
next
  case (3 u v rest)
  let ?Y = "cne_graph fs g om caps (cne_edges edges cns caps s d)"
  from "3.prems"(1) obtain l where l: "edge_attr (original_graph nodes edges) u v = Some l"
    and w: "is_walk (original_graph nodes edges) (v # rest)" by auto
  have "(u, v, l) \<in> set edges" using l by (rule edge_original_endpoints)
  then have e: "edge_attr ?Y u v = Some (forward_weight fs l, ''original'')"
    by (rule cne_edge_original [OF net plain dist])
  have "is_walk ?Y (v # rest)
         \<and> path_cost ?Y fst (v # rest)
             = path_cost (original_graph nodes edges) (forward_weight fs) (v # rest)"
    using "3.IH"(2) w by simp
  then show ?case using e l by simp
qed

lemma embed_replica:
  assumes net: "valid_network nodes edges cns caps" and plain: "plain_names nodes"
    and dist: "distinct (map (\<lambda>(u, v, l). (u, v)) edges)"
    and pd: "CHR ''_'' \<notin> set d" and i: "i \<in> {1..length cns}"
  shows "is_walk (original_graph nodes edges) p \<Longrightarrow> s \<notin> set p \<Longrightarrow>
         is_walk (cne_graph fs g om caps (cne_edges edges cns caps s d))
           (map (\<lambda>n. n @ ''_'' @ string_of_nat i) p)
         \<and> path_cost (cne_graph fs g om caps (cne_edges edges cns caps s d)) fst
             (map (\<lambda>n. n @ ''_'' @ string_of_nat i) p)
             = path_cost (original_graph nodes edges) (return_weight g fs) p"
proof (induction p rule: induct_list012)
  case 1
  then show ?case by simp
next
  case (2 x)
  then show ?case by simp
next
  case (3 u v rest)
  let ?Y = "cne_graph fs g om caps (cne_edges edges cns caps s d)"
  from "3.prems"(1) obtain l where l: "edge_attr (original_graph nodes edges) u v = Some l"
    and w: "is_walk (original_graph nodes edges) (v # rest)" by auto
  have uv: "u \<noteq> s" "v \<noteq> s" using "3.prems"(2) by auto
  have "(u, v, l) \<in> set edges" using l by (rule edge_original_endpoints)
  from cne_edge_copied [OF net plain dist pd this uv i]
  have e: "edge_attr ?Y (u @ ''_'' @ string_of_nat i) (v @ ''_'' @ string_of_nat i)
             = Some (return_weight g fs l, ''copied'')" .
  have "is_walk ?Y (map (\<lambda>n. n @ ''_'' @ string_of_nat i) (v # rest))
         \<and> path_cost ?Y fst (map (\<lambda>n. n @ ''_'' @ string_of_nat i) (v # rest))
             = path_cost (original_graph nodes edges) (return_weight g fs) (v # rest)"
    using "3.IH"(2) w "3.prems"(2) by simp
  then show ?case using e l by simp
qed

lemma replica_index:
  assumes "c \<in> set cns"
  shows "\<exists>i. (i, c) \<in> set (zip [1..<length cns + 1] cns) \<and> i \<in> {1..length cns}"
proof -
  from assms obtain k where k: "k < length cns" "cns ! k = c" by (auto simp: in_set_conv_nth)
  have "[1..<length cns + 1] ! k = Suc k" using k(1) by (simp del: upt_Suc)
  then have "(Suc k, c) \<in> set (zip [1..<length cns + 1] cns)"
    using k unfolding in_set_zip by (intro exI [of _ k]) (simp del: upt_Suc)
  moreover have "Suc k \<in> {1..length cns}" using k(1) by simp
  ultimately show ?thesis by blast
qed

lemma cne_le_route:
  assumes net: "valid_network nodes edges cns caps" and flow: "valid_flow cns s d fs g om"
    and plain: "plain_names nodes"
    and dist: "distinct (map (\<lambda>(u, v, l). (u, v)) edges)"
    and dn: "d \<in> set nodes"
    and c: "c \<in> set cns" and cap: "map_of caps c = Some cap"
    and p1: "is_walk (original_graph nodes edges) p1" "p1 \<noteq> []" "hd p1 = s" "last p1 = c"
    and p2: "is_walk (original_graph nodes edges) p2" "p2 \<noteq> []" "hd p2 = c" "last p2 = d"
      "s \<notin> set p2"
  shows "\<exists>t'. cne_total_delay nodes edges cns caps s d fs g om = Inr (Fin t')
           \<and> t' \<le> path_cost (original_graph nodes edges) (forward_weight fs) p1
                  + path_cost (original_graph nodes edges) (return_weight g fs) p2
                  + om * fs / cap"
proof -
  let ?G = "original_graph nodes edges"
  define Y where "Y = cne_graph fs g om caps (cne_edges edges cns caps s d)"
  define sd where "sd = d @ ''_Super_Dest''"
  have caps: "\<forall>n \<in> set cns. map_of caps n \<noteq> None"
    using net valid_network_caps by blast
  from expand_network_CNE_ok [OF caps, of nodes edges s d] obtain V where
    ex: "expand_network_CNE nodes edges cns caps s d = Inr (V, cne_edges edges cns caps s d, sd)"
    unfolding sd_def by blast
  have build: "cne_build fs g om caps (cne_edges edges cns caps s d) empty_graph = Inr Y"
    unfolding Y_def by (rule cne_build_built [OF net flow])
  have wf: "wf_graph Y" unfolding Y_def by (rule wf_cne_graph)
  have nonneg: "\<And>k a. (k, a) \<in> set (gadj Y) \<Longrightarrow> 0 \<le> fst a"
    unfolding Y_def by (rule cne_graph_nonneg [OF net flow])
  have pd: "CHR ''_'' \<notin> set d" using plain dn by (rule plain_names_mem)
  from replica_index [OF c] obtain i where
    ic: "(i, c) \<in> set (zip [1..<length cns + 1] cns)" and i: "i \<in> {1..length cns}" by blast
  define suf where "suf = (\<lambda>n. n @ ''_'' @ string_of_nat i)"
  \<comment> \<open>the forward part in the original layer\<close>
  have up: "is_walk Y p1" "path_cost Y fst p1 = path_cost ?G (forward_weight fs) p1"
    using embed_original [OF net plain dist p1(1), where fs=fs and g=g and om=om and s=s and d=d] unfolding Y_def by simp_all
  \<comment> \<open>the return part in the replica of the compute node\<close>
  define M where "M = map suf p2"
  have down: "is_walk Y M" "path_cost Y fst M = path_cost ?G (return_weight g fs) p2"
    using embed_replica [OF net plain dist pd i p2(1) p2(5), where fs=fs and g=g and om=om]
    unfolding Y_def M_def suf_def by simp_all
  have M: "M \<noteq> []" "hd M = suf c" "last M = suf d"
    using p2(2,3,4) unfolding M_def by (simp_all add: hd_map last_map)
  have enter: "edge_attr Y c (suf c) = Some (om * fs / cap, ''compute'')"
    unfolding Y_def suf_def by (rule cne_edge_compute [OF net plain ic cap])
  have agg: "edge_attr Y (suf d) sd = Some (0, ''aggregate'')"
    unfolding Y_def suf_def sd_def by (rule cne_edge_aggregate [OF net plain pd i])
  \<comment> \<open>the walk through the replica expansion\<close>
  obtain M' where M': "M = suf c # M'" using M(1,2) by (cases M) auto
  define W where "W = p1 @ suf c # (M' @ [sd])"
  have w1: "is_walk Y (p1 @ [suf c])"
    using is_walk_snoc [OF p1(2), of Y "suf c"] up(1) enter p1(4) by simp
  have c1: "path_cost Y fst (p1 @ [suf c]) = path_cost Y fst p1 + om * fs / cap"
    using path_cost_snoc [OF p1(2), of Y fst "suf c"] enter p1(4) by simp
  have w2: "is_walk Y (M @ [sd])"
    using is_walk_snoc [OF M(1), of Y sd] down(1) agg M(3) by simp
  have c2: "path_cost Y fst (M @ [sd]) = path_cost Y fst M"
    using path_cost_snoc [OF M(1), of Y fst sd] agg M(3) by simp
  have Mform: "suf c # (M' @ [sd]) = M @ [sd]" unfolding M' by simp
  have walkW: "is_walk Y W"
    unfolding W_def using is_walk_append [of Y p1 "suf c" "M' @ [sd]"] w1 w2
    unfolding Mform by simp
  have costW: "path_cost Y fst W
      = path_cost ?G (forward_weight fs) p1 + path_cost ?G (return_weight g fs) p2 + om * fs / cap"
    unfolding W_def using path_cost_append [of Y fst p1 "suf c" "M' @ [sd]"] c1 c2 up(2) down(2)
    unfolding Mform by simp
  have W: "W \<noteq> []" "hd W = s" "last W = sd"
    using p1(2,3) unfolding W_def by simp_all
  have "2 \<le> length W" using p1(2) unfolding W_def by (cases p1) auto
  then have "set W \<subseteq> set (gnodes Y)"
    using is_walk_nodes [OF walkW] wf unfolding wf_graph_def by fastforce
  then have sY: "s \<in> set (gnodes Y)" using W(1,2) hd_in_set by fastforce
  from dijkstra_path_exists [OF wf sY walkW W, of fst] obtain q where
    q: "dijkstra_path Y s sd fst = Inr q" by blast
  have "path_cost Y fst q \<le> path_cost Y fst W"
    by (rule dijkstra_path_optimal [OF wf nonneg q walkW W])
  moreover have "cne_total_delay nodes edges cns caps s d fs g om = Inr (Fin (path_cost Y fst q))"
    unfolding cne_total_delay_def by (simp add: ex build q)
  ultimately show ?thesis using costW by simp
qed

lemma replica_bound:
  assumes net: "valid_network nodes edges cns caps" and flow: "valid_flow cns s d fs g om"
    and plain: "plain_names nodes"
    and dist: "distinct (map (\<lambda>(u, v, l). (u, v)) edges)"
    and sn: "s \<in> set nodes" and dn: "d \<in> set nodes"
    and cpeg: "cpeg_algorithm nodes edges cns caps s d fs g om = Inr (q, t)"
  shows "\<exists>t'. cne_total_delay nodes edges cns caps s d fs g om = Inr (Fin t') \<and> t' \<le> t"
proof -
  let ?G = "original_graph nodes edges"
  have caps: "\<forall>n \<in> set cns. map_of caps n \<noteq> None"
    using net valid_network_caps by blast
  obtain V E where ex: "expand_network nodes edges cns caps s d = Inr (V, E)"
    using expand_network_ok [OF caps] by blast
  define X where "X = built_graph fs g om caps E"
  have build: "build_graph fs g om caps E empty_graph = Inr X"
    unfolding X_def by (rule build_graph_built [OF net flow ex])
  have bw: "\<forall>(k, a) \<in> set (gadj ?G). bandwidth a \<noteq> 0"
    using original_graph_links [OF net] by (fastforce simp: valid_link_def)
  have ends: "\<forall>(u, v, l) \<in> set edges. CHR ''_'' \<notin> set u \<and> CHR ''_'' \<notin> set v"
    using valid_network_edge [OF net plain] by blast
  have cnsp: "\<forall>n \<in> set cns. CHR ''_'' \<notin> set n"
    using valid_network_compute [OF net plain] by blast
  have ps: "CHR ''_'' \<notin> set s" using plain sn by (rule plain_names_mem)
  \<comment> \<open>what the CPEG script found\<close>
  from cpeg have "\<exists>found. dijkstra_path X s (d @ ''_3'') fst = Inr found
      \<and> (\<exists>pw. path_sum X (\<lambda>a. Inr (fst a)) found = Inr pw \<and> found = q \<and> pw = t)"
    unfolding cpeg_algorithm_def by (simp add: ex build err_bind_Inr_iff Let_def)
  then have dq: "dijkstra_path X s (d @ ''_3'') fst = Inr q"
    and sum: "path_sum X (\<lambda>a. Inr (fst a)) q = Inr t" by auto
  have snd: "q \<noteq> []" "hd q = s" "last q = d @ ''_3''" "is_walk X q"
    using dijkstra_path_sound [OF dq] by simp_all
  have t: "t = path_cost X fst q" using sum path_sum_plain [OF snd(4), of fst] by simp
  obtain r where r: "q = s # r" using snd(1,2) by (cases q) auto
  have wq: "is_walk X (s # r)" and lq: "last (s # r) = d @ ''_3''"
    using snd(3,4) unfolding r by simp_all
  from up_walk_decomp [OF caps ex ends cnsp bw wq [unfolded X_def] ps lq]
  obtain p1 c p2 where
    dc: "c \<in> set cns" "is_walk ?G p1" "p1 \<noteq> []" "hd p1 = s" "last p1 = c"
      "is_walk ?G p2" "p2 \<noteq> []" "hd p2 = c" "last p2 = d" "2 \<le> length p2 \<longrightarrow> s \<notin> set p2"
      "path_cost (built_graph fs g om caps E) fst (s # r)
         = path_cost ?G (forward_weight fs) p1
           + (if caps_get caps (split_head (c @ ''_2'')) 1 = 0 then 0
              else om * fs / caps_get caps (split_head (c @ ''_2'')) 1)
           + path_cost ?G (return_weight g fs) p2"
    by (elim exE conjE) (rule that; assumption)
  have cs: "c \<noteq> s" and cd: "c \<noteq> d" using flow dc(1) by (auto simp: valid_flow_def)
  have s2: "s \<notin> set p2"
  proof (cases "2 \<le> length p2")
    case True
    then show ?thesis using dc(10) by simp
  next
    case False
    then have "length p2 < 2" by simp
    then obtain x where "p2 = [x]" using dc(7) by (cases p2) (auto simp: less_Suc_eq numeral_2_eq_2)
    then have "c = d" using dc(8,9) by simp
    then show ?thesis using cd by simp
  qed
  from valid_network_cap [OF net dc(1)] obtain cap where
    cap: "map_of caps c = Some cap" "0 < cap" by blast
  have pc: "CHR ''_'' \<notin> set c" using cnsp dc(1) by blast
  have "split_head (c @ ''_2'') = c" using pc split_head_suffix [of c "''2''"] by simp
  then have "caps_get caps (split_head (c @ ''_2'')) 1 = cap"
    using cap(1) by (simp add: caps_get_def)
  then have tv: "t = path_cost ?G (forward_weight fs) p1
      + path_cost ?G (return_weight g fs) p2 + om * fs / cap"
    using dc(11) cap(2) unfolding t r X_def by simp
  from cne_le_route [OF net flow plain dist dn dc(1) cap(1) dc(2,3,4,5) dc(6,7,8,9) s2]
  show ?thesis unfolding tv .
qed


lemma cne_edge_source:
  assumes net: "valid_network nodes edges cns caps" and flow: "valid_flow cns s d fs g om"
    and e: "edge_attr (cne_graph fs g om caps (cne_edges edges cns caps s d)) a b = Some w"
  shows "\<exists>ed. (a, b, ed, snd w) \<in> set (cne_edges edges cns caps s d)
           \<and> cne_weight fs g om caps (a, b, ed, snd w) = Inr (fst w)"
proof -
  let ?E = "cne_edges edges cns caps s d"
  from e have "map_of (rev (keyed (map (cne_weighted fs g om caps) ?E))) (a, b) = Some w"
    unfolding cne_graph_def edge_attr_built .
  then have "((a, b), w) \<in> set (rev (keyed (map (cne_weighted fs g om caps) ?E)))"
    by (rule map_of_SomeD)
  then have "((a, b), w) \<in> (\<lambda>(u, v, a). ((u, v), a)) ` cne_weighted fs g om caps ` set ?E"
    unfolding keyed_def set_rev set_map .
  then obtain e' where e': "e' \<in> set ?E"
    and eq: "((a, b), w) = (\<lambda>(u, v, a). ((u, v), a)) (cne_weighted fs g om caps e')"
    by blast
  obtain a' b' ed layer where f: "e' = (a', b', ed, layer)" by (cases e') auto
  from eq have ab: "a' = a" "b' = b"
    and w: "w = (case cne_weight fs g om caps (a, b, ed, layer) of Inl err \<Rightarrow> 0 | Inr w \<Rightarrow> w, layer)"
    unfolding f by (simp_all add: cne_weighted_def)
  have m: "(a, b, ed, layer) \<in> set ?E" using e' unfolding f ab .
  from cne_weight_valid [OF net flow m] obtain x where
    x: "cne_weight fs g om caps (a, b, ed, layer) = Inr x" by blast
  have "snd w = layer" "fst w = x" using w x by simp_all
  then have "(a, b, ed, snd w) \<in> set ?E \<and> cne_weight fs g om caps (a, b, ed, snd w) = Inr (fst w)"
    using m x by simp
  then show ?thesis by (rule exI [of _ ed])
qed

lemma cne_from_plain:
  assumes net: "valid_network nodes edges cns caps" and flow: "valid_flow cns s d fs g om"
    and plain: "plain_names nodes"
    and pa: "CHR ''_'' \<notin> set a"
    and e: "edge_attr (cne_graph fs g om caps (cne_edges edges cns caps s d)) a b = Some w"
  shows "(\<exists>l. (a, b, l) \<in> set edges \<and> fst w = forward_weight fs l)
       \<or> (a \<in> set cns \<and> CHR ''_'' \<in> set b \<and> (\<exists>i. b = a @ ''_'' @ string_of_nat i)
           \<and> (\<exists>cap. map_of caps a = Some cap \<and> fst w = om * fs / cap))"
proof -
  from cne_edge_source [OF net flow e] obtain ed where
    m: "(a, b, ed, snd w) \<in> set (cne_edges edges cns caps s d)"
    and x: "cne_weight fs g om caps (a, b, ed, snd w) = Inr (fst w)" by blast
  from cne_edge_kinds [OF m] show ?thesis
  proof (elim disjE exE conjE)
    fix l assume a: "(a, b, l) \<in> set edges" "ed = Attrs l" "snd w = ''original''"
    have "bandwidth l \<noteq> 0" using valid_network_link(1) [OF net a(1)] by (simp add: valid_link_def)
    from cne_weight_original [OF this, of fs g om caps a b] x
    have "fst w = forward_weight fs l" unfolding a(2,3) by simp
    with a(1) have "(a, b, l) \<in> set edges \<and> fst w = forward_weight fs l" by simp
    then have "\<exists>l. (a, b, l) \<in> set edges \<and> fst w = forward_weight fs l"
      by (rule exI [of _ l])
    then show ?thesis by (rule disjI1)
  next
    fix x' y' l' i assume "a = x' @ ''_'' @ string_of_nat i"
    then have False using pa by simp
    then show ?thesis ..
  next
    fix i assume a: "a \<in> set cns" "b = a @ ''_'' @ string_of_nat i"
      "ed = CapacityDict (the (map_of caps a))"
    from valid_network_cap [OF net a(1)] obtain cap where
      cap: "map_of caps a = Some cap" "0 < cap" by blast
    from cne_weight_compute [OF cap, of fs g om b "the (map_of caps a)" "snd w"] x
    have "fst w = om * fs / cap" unfolding a(3) by simp
    with cap(1) have "map_of caps a = Some cap \<and> fst w = om * fs / cap" by simp
    then have 1: "\<exists>cap. map_of caps a = Some cap \<and> fst w = om * fs / cap"
      by (rule exI [of _ cap])
    have 2: "\<exists>i. b = a @ ''_'' @ string_of_nat i" using a(2) by (rule exI [of _ i])
    have 3: "CHR ''_'' \<in> set b" unfolding a(2) by simp
    show ?thesis using a(1) 1 2 3 by simp
  next
    fix i assume "a = d @ ''_'' @ string_of_nat i"
    then have False using pa by simp
    then show ?thesis ..
  qed
qed

lemma cne_from_replica:
  assumes net: "valid_network nodes edges cns caps" and flow: "valid_flow cns s d fs g om"
    and plain: "plain_names nodes"
    and px: "CHR ''_'' \<notin> set x" and pd: "CHR ''_'' \<notin> set d"
    and e: "edge_attr (cne_graph fs g om caps (cne_edges edges cns caps s d))
              (x @ ''_'' @ string_of_nat i) b = Some w"
  shows "(\<exists>y l. (x, y, l) \<in> set edges \<and> x \<noteq> s \<and> y \<noteq> s \<and> b = y @ ''_'' @ string_of_nat i
            \<and> fst w = return_weight g fs l)
       \<or> (x = d \<and> b = d @ ''_Super_Dest'' \<and> fst w = 0)"
proof -
  note pe = valid_network_edge [OF net plain]
  from cne_edge_source [OF net flow e] obtain ed where
    m: "(x @ ''_'' @ string_of_nat i, b, ed, snd w) \<in> set (cne_edges edges cns caps s d)"
    and xw: "cne_weight fs g om caps (x @ ''_'' @ string_of_nat i, b, ed, snd w) = Inr (fst w)"
    by blast
  from cne_edge_kinds [OF m] show ?thesis
  proof (elim disjE exE conjE)
    fix l assume "(x @ ''_'' @ string_of_nat i, b, l) \<in> set edges"
    from pe(1) [OF this] have False by (rule replica_not_plain)
    then show ?thesis ..
  next
    fix x' y' l' j assume a: "(x', y', l') \<in> set edges" "x' \<noteq> s" "y' \<noteq> s"
      "x @ ''_'' @ string_of_nat i = x' @ ''_'' @ string_of_nat j"
      "b = y' @ ''_'' @ string_of_nat j" "ed = Attrs l'" "snd w = ''copied''"
    have px': "CHR ''_'' \<notin> set x'" using pe(1) [OF a(1)] .
    have xx: "x = x'" and ij: "string_of_nat i = string_of_nat j"
      using replica_names_eq [OF px px' a(4)] by blast+
    have "bandwidth l' \<noteq> 0" using valid_network_link(1) [OF net a(1)] by (simp add: valid_link_def)
    from cne_weight_copied [OF this, of fs g om caps "x @ ''_'' @ string_of_nat i" b] xw
    have "fst w = return_weight g fs l'" unfolding a(6,7) by simp
    then have "(x, y', l') \<in> set edges \<and> x \<noteq> s \<and> y' \<noteq> s \<and> b = y' @ ''_'' @ string_of_nat i
            \<and> fst w = return_weight g fs l'"
      using a(1,2,3,5) xx ij by simp
    then have "\<exists>y l. (x, y, l) \<in> set edges \<and> x \<noteq> s \<and> y \<noteq> s \<and> b = y @ ''_'' @ string_of_nat i
            \<and> fst w = return_weight g fs l"
      by (intro exI [of _ y'] exI [of _ l'])
    then show ?thesis by (rule disjI1)
  next
    fix j assume "x @ ''_'' @ string_of_nat i \<in> set cns"
    from valid_network_compute [OF net plain this] have False by (rule replica_not_plain)
    then show ?thesis ..
  next
    fix j assume a: "x @ ''_'' @ string_of_nat i = d @ ''_'' @ string_of_nat j"
      "b = d @ ''_Super_Dest''" "ed = Number 0"
    have "x = d" using replica_names_eq(1) [OF px pd a(1)] .
    moreover have "fst w = 0" using xw unfolding a(3) by simp
    ultimately show ?thesis using a(2) by simp
  qed
qed

lemma cne_from_super:
  assumes net: "valid_network nodes edges cns caps" and flow: "valid_flow cns s d fs g om"
    and plain: "plain_names nodes" and pd: "CHR ''_'' \<notin> set d"
    and e: "edge_attr (cne_graph fs g om caps (cne_edges edges cns caps s d))
              (d @ ''_Super_Dest'') b = Some w"
  shows False
proof -
  note pe = valid_network_edge [OF net plain]
  have np: "CHR ''_'' \<in> set (d @ ''_Super_Dest'')" by simp
  from cne_edge_source [OF net flow e] obtain ed where
    m: "(d @ ''_Super_Dest'', b, ed, snd w) \<in> set (cne_edges edges cns caps s d)" by blast
  from cne_edge_kinds [OF m] show False
  proof (elim disjE exE conjE)
    fix l assume "(d @ ''_Super_Dest'', b, l) \<in> set edges"
    from pe(1) [OF this] show False using np by simp
  next
    fix x' y' l' j assume a: "(x', y', l') \<in> set edges"
      "d @ ''_Super_Dest'' = x' @ ''_'' @ string_of_nat j"
    have "CHR ''_'' \<notin> set x'" using pe(1) [OF a(1)] .
    from replica_not_super [OF this pd, of j] a(2) show False by simp
  next
    fix j assume "d @ ''_Super_Dest'' \<in> set cns"
    from valid_network_compute [OF net plain this] show False using np by simp
  next
    fix j assume "d @ ''_Super_Dest'' = d @ ''_'' @ string_of_nat j"
    then show False using replica_not_super [OF pd pd, of j] by simp
  qed
qed

lemma edge_in_original:
  assumes dist: "distinct (map (\<lambda>(u, v, l). (u, v)) edges)" and e: "(a, b, l) \<in> set edges"
  shows "edge_attr (original_graph nodes edges) a b = Some l"
  unfolding edge_attr_original_keyed
proof (rule map_of_const)
  have "((a, b), l) \<in> set (keyed edges)"
    unfolding keyed_def set_map using e by (rule rev_image_eqI) simp
  then show "(a, b) \<in> fst ` set (rev (keyed edges))"
    unfolding set_rev by (rule rev_image_eqI) simp
next
  fix v' assume "((a, b), v') \<in> set (rev (keyed edges))"
  then have "((a, b), v') \<in> (\<lambda>(u, v, a). ((u, v), a)) ` set edges"
    unfolding keyed_def set_rev set_map .
  then have "(a, b, v') \<in> set edges" by auto
  then show "v' = l" using distinct_edges_unique [OF dist _ e] by blast
qed

lemma replica_walk_decomp:
  assumes net: "valid_network nodes edges cns caps" and flow: "valid_flow cns s d fs g om"
    and plain: "plain_names nodes"
    and dist: "distinct (map (\<lambda>(u, v, l). (u, v)) edges)"
    and pd: "CHR ''_'' \<notin> set d"
  shows "is_walk (cne_graph fs g om caps (cne_edges edges cns caps s d))
           ((x @ ''_'' @ string_of_nat i) # r) \<Longrightarrow>
         CHR ''_'' \<notin> set x \<Longrightarrow>
         last ((x @ ''_'' @ string_of_nat i) # r) = d @ ''_Super_Dest'' \<Longrightarrow>
         \<exists>p2. p2 \<noteq> [] \<and> hd p2 = x \<and> last p2 = d \<and> is_walk (original_graph nodes edges) p2
           \<and> (2 \<le> length p2 \<longrightarrow> s \<notin> set p2)
           \<and> path_cost (cne_graph fs g om caps (cne_edges edges cns caps s d)) fst
                ((x @ ''_'' @ string_of_nat i) # r)
               = path_cost (original_graph nodes edges) (return_weight g fs) p2"
proof (induction r arbitrary: x)
  case Nil
  then have "x @ ''_'' @ string_of_nat i = d @ ''_Super_Dest''" by simp
  then have False using replica_not_super [OF Nil.prems(2) pd, of i] by simp
  then show ?case ..
next
  case (Cons b r')
  let ?Y = "cne_graph fs g om caps (cne_edges edges cns caps s d)"
    and ?G = "original_graph nodes edges"
  define xi where "xi = x @ ''_'' @ string_of_nat i"
  from Cons.prems(1) obtain w where w: "edge_attr ?Y xi b = Some w"
    and rest: "is_walk ?Y (b # r')" unfolding xi_def by auto
  have lastb: "last (b # r') = d @ ''_Super_Dest''" using Cons.prems(3) by simp
  from cne_from_replica [OF net flow plain Cons.prems(2) pd w [unfolded xi_def]]
  show ?case
  proof (elim disjE exE conjE)
    fix y l assume a: "(x, y, l) \<in> set edges" "x \<noteq> s" "y \<noteq> s"
      "b = y @ ''_'' @ string_of_nat i" "fst w = return_weight g fs l"
    have py: "CHR ''_'' \<notin> set y" using valid_network_edge(2) [OF net plain a(1)] .
    have el: "edge_attr ?G x y = Some l" using dist a(1) by (rule edge_in_original)
    from Cons.IH [OF rest [unfolded a(4)] py lastb [unfolded a(4)]] obtain p2 where
      ih: "p2 \<noteq> []" "hd p2 = y" "last p2 = d" "is_walk ?G p2" "2 \<le> length p2 \<longrightarrow> s \<notin> set p2"
        "path_cost ?Y fst ((y @ ''_'' @ string_of_nat i) # r')
           = path_cost ?G (return_weight g fs) p2"
      by (elim exE conjE) (rule that; assumption)
    obtain rest2 where p2f: "p2 = y # rest2" using ih(1,2) by (cases p2) auto
    have s2: "s \<notin> set p2"
    proof (cases "2 \<le> length p2")
      case True
      then show ?thesis using ih(5) by simp
    next
      case False
      then have "rest2 = []" unfolding p2f by (cases rest2) auto
      then show ?thesis using a(3) unfolding p2f by simp
    qed
    have cost: "path_cost ?Y fst (xi # b # r') = path_cost ?G (return_weight g fs) (x # p2)"
      using w a(5) el ih(6) unfolding p2f a(4) by simp
    show ?thesis
    proof (rule exI [of _ "x # p2"], intro conjI)
      show "is_walk ?G (x # p2)" using el ih(4) unfolding p2f by simp
      show "last (x # p2) = d" using ih(1,3) by simp
      show "2 \<le> length (x # p2) \<longrightarrow> s \<notin> set (x # p2)" using s2 a(2) by simp
      show "path_cost ?Y fst ((x @ ''_'' @ string_of_nat i) # b # r')
              = path_cost ?G (return_weight g fs) (x # p2)"
        using cost unfolding xi_def .
    qed simp_all
  next
    assume a: "x = d" "b = d @ ''_Super_Dest''" "fst w = 0"
    have "r' = []"
    proof (cases r')
      case Nil
      then show ?thesis .
    next
      case (Cons e r'')
      with rest obtain w' where "edge_attr ?Y (d @ ''_Super_Dest'') e = Some w'"
        unfolding a(2) by auto
      from cne_from_super [OF net flow plain pd this] show ?thesis ..
    qed
    then have cost: "path_cost ?Y fst (xi # b # r') = 0" using w a(3) by simp
    show ?thesis
    proof (rule exI [of _ "[x]"], intro conjI)
      show "last [x] = d" using a(1) by simp
      show "path_cost ?Y fst ((x @ ''_'' @ string_of_nat i) # b # r')
              = path_cost ?G (return_weight g fs) [x]"
        using cost unfolding xi_def by simp
    qed simp_all
  qed
qed

lemma cne_walk_decomp:
  assumes net: "valid_network nodes edges cns caps" and flow: "valid_flow cns s d fs g om"
    and plain: "plain_names nodes"
    and dist: "distinct (map (\<lambda>(u, v, l). (u, v)) edges)"
    and pd: "CHR ''_'' \<notin> set d"
  shows "is_walk (cne_graph fs g om caps (cne_edges edges cns caps s d)) (a # r) \<Longrightarrow>
         CHR ''_'' \<notin> set a \<Longrightarrow>
         last (a # r) = d @ ''_Super_Dest'' \<Longrightarrow>
         \<exists>p1 c p2 cap. c \<in> set cns \<and> map_of caps c = Some cap
           \<and> is_walk (original_graph nodes edges) p1 \<and> p1 \<noteq> [] \<and> hd p1 = a \<and> last p1 = c
           \<and> is_walk (original_graph nodes edges) p2 \<and> p2 \<noteq> [] \<and> hd p2 = c \<and> last p2 = d
           \<and> (2 \<le> length p2 \<longrightarrow> s \<notin> set p2)
           \<and> path_cost (cne_graph fs g om caps (cne_edges edges cns caps s d)) fst (a # r)
               = path_cost (original_graph nodes edges) (forward_weight fs) p1
                 + om * fs / cap
                 + path_cost (original_graph nodes edges) (return_weight g fs) p2"
proof (induction r arbitrary: a)
  case Nil
  then have "CHR ''_'' \<notin> set (d @ ''_Super_Dest'')" by simp
  then have False by simp
  then show ?case ..
next
  case (Cons b r')
  let ?Y = "cne_graph fs g om caps (cne_edges edges cns caps s d)"
    and ?G = "original_graph nodes edges"
  from Cons.prems(1) obtain w where w: "edge_attr ?Y a b = Some w"
    and rest: "is_walk ?Y (b # r')" by auto
  have lastb: "last (b # r') = d @ ''_Super_Dest''" using Cons.prems(3) by simp
  from cne_from_plain [OF net flow plain Cons.prems(2) w]
  show ?case
  proof (elim disjE exE conjE)
    fix l assume a: "(a, b, l) \<in> set edges" "fst w = forward_weight fs l"
    have pb: "CHR ''_'' \<notin> set b" using valid_network_edge(2) [OF net plain a(1)] .
    have el: "edge_attr ?G a b = Some l" using dist a(1) by (rule edge_in_original)
    from Cons.IH [OF rest pb lastb] obtain p1 c p2 cap where
      ih: "c \<in> set cns" "map_of caps c = Some cap"
        "is_walk ?G p1" "p1 \<noteq> []" "hd p1 = b" "last p1 = c"
        "is_walk ?G p2" "p2 \<noteq> []" "hd p2 = c" "last p2 = d" "2 \<le> length p2 \<longrightarrow> s \<notin> set p2"
        "path_cost ?Y fst (b # r')
           = path_cost ?G (forward_weight fs) p1 + om * fs / cap
             + path_cost ?G (return_weight g fs) p2"
      by (elim exE conjE) (rule that; assumption)
    obtain rest1 where p1f: "p1 = b # rest1" using ih(4,5) by (cases p1) auto
    show ?thesis
    proof (rule exI [of _ "a # p1"], rule exI [of _ c], rule exI [of _ p2], rule exI [of _ cap],
        intro conjI)
      show "is_walk ?G (a # p1)" using el ih(3) unfolding p1f by simp
      show "last (a # p1) = c" using ih(4,6) by simp
      show "path_cost ?Y fst (a # b # r')
              = path_cost ?G (forward_weight fs) (a # p1) + om * fs / cap
                + path_cost ?G (return_weight g fs) p2"
        using w a(2) el ih(12) unfolding p1f by simp
    qed (use ih in simp_all)
  next
    fix i cap assume a: "a \<in> set cns" "b = a @ ''_'' @ string_of_nat i"
      "map_of caps a = Some cap" "fst w = om * fs / cap"
    from replica_walk_decomp [OF net flow plain dist pd rest [unfolded a(2)] Cons.prems(2)
        lastb [unfolded a(2)]]
    obtain p2 where
      p2: "p2 \<noteq> []" "hd p2 = a" "last p2 = d" "is_walk ?G p2" "2 \<le> length p2 \<longrightarrow> s \<notin> set p2"
        "path_cost ?Y fst ((a @ ''_'' @ string_of_nat i) # r')
           = path_cost ?G (return_weight g fs) p2"
      by (elim exE conjE) (rule that; assumption)
    show ?thesis
    proof (rule exI [of _ "[a]"], rule exI [of _ a], rule exI [of _ p2], rule exI [of _ cap],
        intro conjI)
      show "path_cost ?Y fst (a # b # r')
              = path_cost ?G (forward_weight fs) [a] + om * fs / cap
                + path_cost ?G (return_weight g fs) p2"
        using w a(4) p2(6) unfolding a(2) by simp
    qed (use a p2 in simp_all)
  qed
qed

lemma sink_not_inner:
  assumes sink: "\<forall>(u, v, l) \<in> set edges. u \<noteq> d"
  shows "is_walk (original_graph nodes edges) p \<Longrightarrow> d \<notin> set (butlast p)"
proof (induction p rule: induct_list012)
  case 1
  then show ?case by simp
next
  case (2 x)
  then show ?case by simp
next
  case (3 u v rest)
  from "3.prems" obtain l where l: "edge_attr (original_graph nodes edges) u v = Some l"
    and w: "is_walk (original_graph nodes edges) (v # rest)" by auto
  have "(u, v, l) \<in> set edges" using l by (rule edge_original_endpoints)
  then have "u \<noteq> d" using sink by blast
  then show ?case using "3.IH"(2) [OF w] by simp
qed

lemma cpeg_le_cne:
  assumes net: "valid_network nodes edges cns caps" and flow: "valid_flow cns s d fs g om"
    and plain: "plain_names nodes"
    and dist: "distinct (map (\<lambda>(u, v, l). (u, v)) edges)"
    and sn: "s \<in> set nodes" and dn: "d \<in> set nodes"
    and sink: "\<forall>(u, v, l) \<in> set edges. u \<noteq> d"
    and cne: "cne_total_delay nodes edges cns caps s d fs g om = Inr (Fin t')"
  shows "\<exists>q t. cpeg_algorithm nodes edges cns caps s d fs g om = Inr (q, t) \<and> t \<le> t'"
proof -
  let ?G = "original_graph nodes edges"
  define Y where "Y = cne_graph fs g om caps (cne_edges edges cns caps s d)"
  define sd where "sd = d @ ''_Super_Dest''"
  have caps: "\<forall>n \<in> set cns. map_of caps n \<noteq> None"
    using net valid_network_caps by blast
  from expand_network_CNE_ok [OF caps, of nodes edges s d] obtain V where
    ex: "expand_network_CNE nodes edges cns caps s d = Inr (V, cne_edges edges cns caps s d, sd)"
    unfolding sd_def by blast
  have build: "cne_build fs g om caps (cne_edges edges cns caps s d) empty_graph = Inr Y"
    unfolding Y_def by (rule cne_build_built [OF net flow])
  have ps: "CHR ''_'' \<notin> set s" using plain sn by (rule plain_names_mem)
  have pd: "CHR ''_'' \<notin> set d" using plain dn by (rule plain_names_mem)
  from cne have "(case dijkstra_path Y s sd fst of Inl e \<Rightarrow> Inr PosInf
                  | Inr found \<Rightarrow> Inr (Fin (path_cost Y fst found))) = (Inr (Fin t') :: error + delay)"
    unfolding cne_total_delay_def by (simp add: ex build)
  then obtain q' where dq: "dijkstra_path Y s sd fst = Inr q'" and t': "t' = path_cost Y fst q'"
    by (cases "dijkstra_path Y s sd fst") auto
  have snd: "q' \<noteq> []" "hd q' = s" "last q' = sd" "is_walk Y q'"
    using dijkstra_path_sound [OF dq] by simp_all
  obtain r where r: "q' = s # r" using snd(1,2) by (cases q') auto
  have wq: "is_walk Y (s # r)" and lq: "last (s # r) = d @ ''_Super_Dest''"
    using snd(3,4) unfolding r sd_def by simp_all
  from cne_walk_decomp [OF net flow plain dist pd wq [unfolded Y_def] ps lq]
  obtain p1 c p2 cap where
    dc: "c \<in> set cns" "map_of caps c = Some cap"
      "is_walk ?G p1" "p1 \<noteq> []" "hd p1 = s" "last p1 = c"
      "is_walk ?G p2" "p2 \<noteq> []" "hd p2 = c" "last p2 = d" "2 \<le> length p2 \<longrightarrow> s \<notin> set p2"
      "path_cost (cne_graph fs g om caps (cne_edges edges cns caps s d)) fst (s # r)
         = path_cost ?G (forward_weight fs) p1 + om * fs / cap
           + path_cost ?G (return_weight g fs) p2"
    by (elim exE conjE) (rule that; assumption)
  have cs: "c \<noteq> s" and cd: "c \<noteq> d" using flow dc(1) by (auto simp: valid_flow_def)
  have s2: "s \<notin> set p2"
  proof (cases "2 \<le> length p2")
    case True
    then show ?thesis using dc(11) by simp
  next
    case False
    then have "length p2 < 2" by simp
    then obtain x where "p2 = [x]" using dc(8) by (cases p2) (auto simp: less_Suc_eq numeral_2_eq_2)
    then have "c = d" using dc(9,10) by simp
    then show ?thesis using cd by simp
  qed
  have "butlast p1 @ [c] = p1" using append_butlast_last_id [OF dc(4)] dc(6) by simp
  then have "set p1 = set (butlast p1 @ [c])" by simp
  then have d1: "d \<notin> set p1" using sink_not_inner [OF sink dc(3)] cd by simp
  have "c \<in> set nodes" using net dc(1) by (auto simp: valid_network_def list_all_iff)
  then have n1: "set p1 \<subseteq> set nodes" using walk_inside [OF net dc(3,4)] dc(6) by simp
  have tv: "t' = path_cost ?G (forward_weight fs) p1
      + path_cost ?G (return_weight g fs) p2 + om * fs / cap"
    using dc(12) unfolding t' r Y_def by simp
  from cpeg_le_split [OF net flow plain dc(1,2) dc(3,4,5,6) n1 d1 dc(7,8,9,10) s2]
  show ?thesis unfolding tv .
qed

text \<open>
  C8 (as amended). In exact arithmetic, on a valid network without multi-edges and a
  flow request between two of its nodes, node names free of underscores: whenever the
  CPEG search returns a total delay, the search over the replica expansion (with the
  weights modelled from the spec) returns a total delay as well, and it is at most the
  one of CPEG; the two are equal when no edge of the network leaves the destination.
  Every route of the three-layer expansion is a route of the replica expansion, of the
  same weight: the forward part in the original layer, the compute edge into the replica
  of the compute node, the return part inside that replica and the aggregate edge.
  Conversely a route of the replica expansion is a route of the three-layer expansion
  unless its forward part passes through the destination. Both totals are minimum
  weights of walks, so they do not depend on the choice among shortest paths.
\<close>

theorem cne_le_cpeg:
  assumes net: "valid_network nodes edges cns caps" and flow: "valid_flow cns s d fs g om"
    and plain: "plain_names nodes"
    and dist: "distinct (map (\<lambda>(u, v, l). (u, v)) edges)"
    and sn: "s \<in> set nodes" and dn: "d \<in> set nodes"
    and cpeg: "cpeg_algorithm nodes edges cns caps s d fs g om = Inr (q, t)"
  shows "\<exists>t'. cne_total_delay nodes edges cns caps s d fs g om = Inr (Fin t') \<and> t' \<le> t
           \<and> ((\<forall>(u, v, l) \<in> set edges. u \<noteq> d) \<longrightarrow> t' = t)"
proof -
  from replica_bound [OF net flow plain dist sn dn cpeg] obtain t' where
    t': "cne_total_delay nodes edges cns caps s d fs g om = Inr (Fin t')" "t' \<le> t" by blast
  have "t' = t" if sink: "\<forall>(u, v, l) \<in> set edges. u \<noteq> d"
  proof -
    from cpeg_le_cne [OF net flow plain dist sn dn sink t'(1)] obtain q2 t2 where
      "cpeg_algorithm nodes edges cns caps s d fs g om = Inr (q2, t2)" "t2 \<le> t'" by blast
    then have "t \<le> t'" using cpeg by simp
    then show ?thesis using t'(2) by simp
  qed
  then have "cne_total_delay nodes edges cns caps s d fs g om = Inr (Fin t') \<and> t' \<le> t
           \<and> ((\<forall>(u, v, l) \<in> set edges. u \<noteq> d) \<longrightarrow> t' = t)"
    using t' by simp
  then show ?thesis by (rule exI [of _ t'])
qed

theorem cne_le_cpeg_witness:
  "\<exists>t'. cne_total_delay [''A'', ''B'', ''C'', ''D'']
        [(''A'', ''B'', \<lparr>bandwidth = 1000, propagation_delay = 1, processing_delay = 1 / 10,
            queuing_delay = 0, jitter = 0\<rparr>),
         (''B'', ''D'', \<lparr>bandwidth = 1000, propagation_delay = 1, processing_delay = 1 / 10,
            queuing_delay = 0, jitter = 0\<rparr>),
         (''A'', ''C'', \<lparr>bandwidth = 1000, propagation_delay = 1, processing_delay = 1 / 10,
            queuing_delay = 0, jitter = 0\<rparr>),
         (''C'', ''D'', \<lparr>bandwidth = 1000, propagation_delay = 1, processing_delay = 1 / 10,
            queuing_delay = 0, jitter = 0\<rparr>)]
        [''B'', ''C''] [(''B'', 10000), (''C'', 50000)] ''A'' ''D'' 100 2 10 = Inr (Fin t')
     \<and> t' \<le> 63 / 25 \<and> t' = 63 / 25"
proof -
  have net: "valid_network [''A'', ''B'', ''C'', ''D'']
        [(''A'', ''B'', \<lparr>bandwidth = 1000, propagation_delay = 1, processing_delay = 1 / 10,
            queuing_delay = 0, jitter = 0\<rparr>),
         (''B'', ''D'', \<lparr>bandwidth = 1000, propagation_delay = 1, processing_delay = 1 / 10,
            queuing_delay = 0, jitter = 0\<rparr>),
         (''A'', ''C'', \<lparr>bandwidth = 1000, propagation_delay = 1, processing_delay = 1 / 10,
            queuing_delay = 0, jitter = 0\<rparr>),
         (''C'', ''D'', \<lparr>bandwidth = 1000, propagation_delay = 1, processing_delay = 1 / 10,
            queuing_delay = 0, jitter = 0\<rparr>)]
        [''B'', ''C''] [(''B'', 10000), (''C'', 50000)]"
    by (simp add: valid_network_def valid_link_def)
  have flow: "valid_flow [''B'', ''C''] ''A'' ''D'' 100 2 10"
    by (simp add: valid_flow_def)
  have plain: "plain_names [''A'', ''B'', ''C'', ''D'']"
    by (simp add: plain_names_def)
  have dist: "distinct (map (\<lambda>(u, v, l). (u, v))
        [(''A'', ''B'', \<lparr>bandwidth = 1000, propagation_delay = 1, processing_delay = 1 / 10,
            queuing_delay = 0, jitter = 0\<rparr>),
         (''B'', ''D'', \<lparr>bandwidth = 1000, propagation_delay = 1, processing_delay = 1 / 10,
            queuing_delay = 0, jitter = 0\<rparr>),
         (''A'', ''C'', \<lparr>bandwidth = 1000, propagation_delay = 1, processing_delay = 1 / 10,
            queuing_delay = 0, jitter = 0\<rparr>),
         (''C'', ''D'', \<lparr>bandwidth = 1000, propagation_delay = 1, processing_delay = 1 / 10,
            queuing_delay = 0, jitter = 0\<rparr>)])"
    by simp
  have sn: "''A'' \<in> set [''A'', ''B'', ''C'', ''D'']"
    and dn: "''D'' \<in> set [''A'', ''B'', ''C'', ''D'']" by simp_all
  have h: "cpeg_algorithm [''A'', ''B'', ''C'', ''D'']
        [(''A'', ''B'', \<lparr>bandwidth = 1000, propagation_delay = 1, processing_delay = 1 / 10,
            queuing_delay = 0, jitter = 0\<rparr>),
         (''B'', ''D'', \<lparr>bandwidth = 1000, propagation_delay = 1, processing_delay = 1 / 10,
            queuing_delay = 0, jitter = 0\<rparr>),
         (''A'', ''C'', \<lparr>bandwidth = 1000, propagation_delay = 1, processing_delay = 1 / 10,
            queuing_delay = 0, jitter = 0\<rparr>),
         (''C'', ''D'', \<lparr>bandwidth = 1000, propagation_delay = 1, processing_delay = 1 / 10,
            queuing_delay = 0, jitter = 0\<rparr>)]
        [''B'', ''C''] [(''B'', 10000), (''C'', 50000)] ''A'' ''D'' 100 2 10
    = Inr ([''A'', ''C'', ''C_2'', ''C_3'', ''D_3''], 63 / 25)"
    by code_simp
  have sink: "\<forall>(u, v, l) \<in> set
        [(''A'', ''B'', \<lparr>bandwidth = 1000, propagation_delay = 1, processing_delay = 1 / 10,
            queuing_delay = 0, jitter = 0\<rparr>),
         (''B'', ''D'', \<lparr>bandwidth = 1000, propagation_delay = 1, processing_delay = 1 / 10,
            queuing_delay = 0, jitter = 0\<rparr>),
         (''A'', ''C'', \<lparr>bandwidth = 1000, propagation_delay = 1, processing_delay = 1 / 10,
            queuing_delay = 0, jitter = 0\<rparr>),
         (''C'', ''D'', \<lparr>bandwidth = 1000, propagation_delay = 1, processing_delay = 1 / 10,
            queuing_delay = 0, jitter = 0\<rparr>)]. u \<noteq> ''D''"
    by simp
  from cne_le_cpeg [OF net flow plain dist sn dn h] obtain t' where
    1: "cne_total_delay [''A'', ''B'', ''C'', ''D'']
        [(''A'', ''B'', \<lparr>bandwidth = 1000, propagation_delay = 1, processing_delay = 1 / 10,
            queuing_delay = 0, jitter = 0\<rparr>),
         (''B'', ''D'', \<lparr>bandwidth = 1000, propagation_delay = 1, processing_delay = 1 / 10,
            queuing_delay = 0, jitter = 0\<rparr>),
         (''A'', ''C'', \<lparr>bandwidth = 1000, propagation_delay = 1, processing_delay = 1 / 10,
            queuing_delay = 0, jitter = 0\<rparr>),
         (''C'', ''D'', \<lparr>bandwidth = 1000, propagation_delay = 1, processing_delay = 1 / 10,
            queuing_delay = 0, jitter = 0\<rparr>)]
        [''B'', ''C''] [(''B'', 10000), (''C'', 50000)] ''A'' ''D'' 100 2 10 = Inr (Fin t')"
    and 2: "t' \<le> 63 / 25"
    and 3: "(\<forall>(u, v, l) \<in> set
        [(''A'', ''B'', \<lparr>bandwidth = 1000, propagation_delay = 1, processing_delay = 1 / 10,
            queuing_delay = 0, jitter = 0\<rparr>),
         (''B'', ''D'', \<lparr>bandwidth = 1000, propagation_delay = 1, processing_delay = 1 / 10,
            queuing_delay = 0, jitter = 0\<rparr>),
         (''A'', ''C'', \<lparr>bandwidth = 1000, propagation_delay = 1, processing_delay = 1 / 10,
            queuing_delay = 0, jitter = 0\<rparr>),
         (''C'', ''D'', \<lparr>bandwidth = 1000, propagation_delay = 1, processing_delay = 1 / 10,
            queuing_delay = 0, jitter = 0\<rparr>)]. u \<noteq> ''D'') \<longrightarrow> t' = 63 / 25"
    by (elim exE conjE) (rule that; assumption)
  from 3 sink have "t' = 63 / 25" by (rule mp)
  with 1 2 have "cne_total_delay [''A'', ''B'', ''C'', ''D'']
        [(''A'', ''B'', \<lparr>bandwidth = 1000, propagation_delay = 1, processing_delay = 1 / 10,
            queuing_delay = 0, jitter = 0\<rparr>),
         (''B'', ''D'', \<lparr>bandwidth = 1000, propagation_delay = 1, processing_delay = 1 / 10,
            queuing_delay = 0, jitter = 0\<rparr>),
         (''A'', ''C'', \<lparr>bandwidth = 1000, propagation_delay = 1, processing_delay = 1 / 10,
            queuing_delay = 0, jitter = 0\<rparr>),
         (''C'', ''D'', \<lparr>bandwidth = 1000, propagation_delay = 1, processing_delay = 1 / 10,
            queuing_delay = 0, jitter = 0\<rparr>)]
        [''B'', ''C''] [(''B'', 10000), (''C'', 50000)] ''A'' ''D'' 100 2 10 = Inr (Fin t')
     \<and> t' \<le> 63 / 25 \<and> t' = 63 / 25" by simp
  then show ?thesis by (rule exI [of _ t'])
qed

text \<open>
  C8 as stated fails. The replica expansion keeps every edge of the network in its
  original layer, the three-layer expansion drops the edges into the destination from
  its upstream layer. Here the route that is fastest to the compute node passes through
  the destination, \<open>S \<rightarrow> D \<rightarrow> C\<close>: the replica expansion finds it, for a total of
  22/5, while CPEG must take the slow edge \<open>S \<rightarrow> C\<close> and reports 1023/10.
\<close>

theorem cne_below_cpeg_counterexample:
  "cne_total_delay [''S'', ''C'', ''D'']
        [(''S'', ''D'', \<lparr>bandwidth = 1000, propagation_delay = 1, processing_delay = 0,
            queuing_delay = 0, jitter = 0\<rparr>),
         (''D'', ''C'', \<lparr>bandwidth = 1000, propagation_delay = 1, processing_delay = 0,
            queuing_delay = 0, jitter = 0\<rparr>),
         (''C'', ''D'', \<lparr>bandwidth = 1000, propagation_delay = 1, processing_delay = 0,
            queuing_delay = 0, jitter = 0\<rparr>),
         (''S'', ''C'', \<lparr>bandwidth = 1000, propagation_delay = 100, processing_delay = 0,
            queuing_delay = 0, jitter = 0\<rparr>)]
        [''C''] [(''C'', 1000)] ''S'' ''D'' 100 2 10
     = Inr (Fin (22 / 5))
   \<and> cpeg_algorithm [''S'', ''C'', ''D'']
        [(''S'', ''D'', \<lparr>bandwidth = 1000, propagation_delay = 1, processing_delay = 0,
            queuing_delay = 0, jitter = 0\<rparr>),
         (''D'', ''C'', \<lparr>bandwidth = 1000, propagation_delay = 1, processing_delay = 0,
            queuing_delay = 0, jitter = 0\<rparr>),
         (''C'', ''D'', \<lparr>bandwidth = 1000, propagation_delay = 1, processing_delay = 0,
            queuing_delay = 0, jitter = 0\<rparr>),
         (''S'', ''C'', \<lparr>bandwidth = 1000, propagation_delay = 100, processing_delay = 0,
            queuing_delay = 0, jitter = 0\<rparr>)]
        [''C''] [(''C'', 1000)] ''S'' ''D'' 100 2 10
     = Inr ([''S'', ''C'', ''C_2'', ''C_3'', ''D_3''], 1023 / 10)
   \<and> Fin (22 / 5) \<noteq> Fin (1023 / 10)"
  by code_simp

end
